theory Spec2Isabelle
  imports Main "HOL-Library.Signed_Division"
begin

section \<open>Values of the host language\<close>

text \<open>
  The two gauge queries of class \<open>Pool\<close> (file \<open>src/pools.ts\<close>) compute with
  \<open>ethers.BigNumber\<close>, a signed integer of arbitrary precision: \<open>add\<close>, \<open>sub\<close>
  and \<open>mul\<close> are exact, \<open>div\<close> truncates towards zero and throws a numeric fault
  (division-by-zero) on a zero divisor, \<open>lt\<close> and \<open>lte\<close> compare. A BigNumber is
  modelled as an \<open>int\<close>; the truncating quotient is \<open>sdiv\<close>.

  Two kinds of exception can leave the functions: the numeric fault of \<open>div\<close>, and
  the \<open>TypeError\<close> of the language itself (\<open>reduce\<close> of an empty array without an
  initial value, a method call on \<open>undefined\<close>). A third one, \<open>InvalidArgument\<close>,
  stands for the rejection of a value that is not a string (or not a BigNumber) where
  the library expects one.
\<close>

datatype error = NumericFault | TypeError | InvalidArgument

type_synonym BigNumber = int

definition bn_div :: "BigNumber \<Rightarrow> BigNumber \<Rightarrow> error + BigNumber" where
  "bn_div a b = (if b = 0 then Inl NumericFault else Inr (a sdiv b))"

text \<open>
  A \<open>DictInterface<T>\<close> is a plain object keyed by strings. It is modelled as an
  association list with pairwise distinct keys, in order of first insertion (the order
  in which \<open>Object.values\<close> and \<open>Object.entries\<close> enumerate keys that are not array
  indices; account addresses are such keys). Assigning to an existing key replaces its
  value in place; reading a missing key gives \<open>undefined\<close>, and the method call that
  follows every read in this file then throws a \<open>TypeError\<close>.
\<close>

type_synonym 'v dict = "(string \<times> 'v) list"

fun dict_set :: "'v dict \<Rightarrow> string \<Rightarrow> 'v \<Rightarrow> 'v dict" where
  "dict_set [] k v = [(k, v)]"
| "dict_set ((k', v') # d) k v =
     (if k' = k then (k, v) # d else (k', v') # dict_set d k v)"

definition dict_get :: "'v dict \<Rightarrow> string \<Rightarrow> error + 'v" where
  "dict_get d k = (case map_of d k of None \<Rightarrow> Inl TypeError | Some v \<Rightarrow> Inr v)"

definition dict_values :: "'v dict \<Rightarrow> 'v list" where
  "dict_values d = map snd d"

definition fromEntries :: "(string \<times> 'v) list \<Rightarrow> 'v dict" where
  "fromEntries ps = foldl (\<lambda>d (k, v). dict_set d k v) [] ps"

text \<open>\<open>xs.reduce((sum, item) => sum.add(item))\<close>: no initial value, so the empty
  array throws.\<close>

fun reduce_add :: "BigNumber list \<Rightarrow> error + BigNumber" where
  "reduce_add [] = Inl TypeError"
| "reduce_add (x # xs) = Inr (foldl (+) x xs)"

text \<open>
  Both functions take a rest parameter declared \<open>...accounts: string[]\<close> and first
  unwrap a single array argument. An argument is therefore a string or an array of
  strings.
\<close>

datatype jsval = JString string | JArray "string list"

fun isArray :: "jsval \<Rightarrow> bool" where
  "isArray (JArray xs) = True"
| "isArray (JString s) = False"

fun elements :: "jsval \<Rightarrow> jsval list" where
  "elements (JArray xs) = map JString xs"
| "elements (JString s) = []"

definition unwrap_accounts :: "jsval list \<Rightarrow> jsval list" where
  "unwrap_accounts accounts =
     (if length accounts = 1 \<and> isArray (accounts ! 0) then elements (accounts ! 0)
      else accounts)"

text \<open>Every account is passed to \<open>balanceOf\<close>, whose address parameter accepts
  strings only.\<close>

fun as_addresses :: "jsval list \<Rightarrow> error + string list" where
  "as_addresses [] = Inr []"
| "as_addresses (JString s # vs) =
     (case as_addresses vs of Inl e \<Rightarrow> Inl e | Inr ss \<Rightarrow> Inr (s # ss))"
| "as_addresses (JArray xs # vs) = Inl InvalidArgument"

section \<open>The contracts read by one multicall\<close>

text \<open>
  The voting escrow, the pool's LP token and the pool's gauge are external contracts.
  One \<open>multicallProvider.all\<close> reads all values at the same block, so the chain is a
  record of the two total supplies and of three balance functions, and the response is
  the list of the results in the order of the calls.
\<close>

record chain =
  veTotalSupply :: BigNumber
  gaugeTotalSupply :: BigNumber
  veBalanceOf :: "string \<Rightarrow> BigNumber"
  lpBalanceOf :: "string \<Rightarrow> BigNumber"
  gaugeBalanceOf :: "string \<Rightarrow> BigNumber"

section \<open>formatUnits\<close>

text \<open>
  \<open>ethers.utils.formatUnits(value, 18)\<close> renders a BigNumber as a decimal string with
  18 fractional digits: sign, whole part, a dot, and the fraction padded to 18 digits
  with its trailing zeros stripped (one digit is always kept).
\<close>

definition digit :: "nat \<Rightarrow> char" where
  "digit d = ''0123456789'' ! d"

function toString :: "nat \<Rightarrow> string" where
  "toString n = (if n < 10 then [digit n] else toString (n div 10) @ [digit (n mod 10)])"
  by pat_completeness auto
termination
  by (relation "measure id") auto

declare toString.simps [simp del]

definition padStart :: "nat \<Rightarrow> string \<Rightarrow> string" where
  "padStart w s = replicate (w - length s) (CHR ''0'') @ s"

definition stripZeros :: "string \<Rightarrow> string" where
  "stripZeros s =
     (let t = rev (dropWhile (\<lambda>c. c = CHR ''0'') (rev s)) in if t = [] then ''0'' else t)"

definition formatUnits :: "BigNumber \<Rightarrow> nat \<Rightarrow> string" where
  "formatUnits v decimals =
     (let multiplier = 10 ^ decimals;
          negative = (v < 0);
          a = nat \<bar>v\<bar>;
          fraction = stripZeros (padStart decimals (toString (a mod multiplier)));
          whole = toString (a div multiplier);
          s = (if decimals = 0 then whole else whole @ ''.'' @ fraction)
      in if negative then ''-'' @ s else s)"

definition formatEntries :: "BigNumber dict \<Rightarrow> string dict" where
  "formatEntries d = fromEntries (map (\<lambda>(k, v). (k, formatUnits v 18)) d)"

section \<open>gaugeMaxBoostedDeposit\<close>

definition maxBoosted_response :: "chain \<Rightarrow> string list \<Rightarrow> BigNumber list" where
  "maxBoosted_response ch accounts =
     [veTotalSupply ch, gaugeTotalSupply ch] @ map (veBalanceOf ch) accounts"

text \<open>\<open>accounts.forEach((acct, i) => resultBN[acct] = gaugeTotalSupply.mul(response[i]).div(veTotalSupply))\<close>\<close>

fun maxBoosted_forEach ::
  "BigNumber \<Rightarrow> BigNumber \<Rightarrow> BigNumber list \<Rightarrow> string list \<Rightarrow> nat \<Rightarrow> BigNumber dict
    \<Rightarrow> error + BigNumber dict" where
  "maxBoosted_forEach veTotal gaugeTotal response [] i resultBN = Inr resultBN"
| "maxBoosted_forEach veTotal gaugeTotal response (acct # rest) i resultBN =
     (if i < length response then
        (case bn_div (gaugeTotal * (response ! i)) veTotal of
           Inl e \<Rightarrow> Inl e
         | Inr cap \<Rightarrow>
             maxBoosted_forEach veTotal gaugeTotal response rest (Suc i)
               (dict_set resultBN acct cap))
      else Inl InvalidArgument)"

definition gaugeMaxBoostedDepositBN :: "chain \<Rightarrow> string list \<Rightarrow> error + BigNumber dict" where
  "gaugeMaxBoostedDepositBN ch accounts =
     (case maxBoosted_response ch accounts of
        veTotal # gaugeTotal # response \<Rightarrow>
          maxBoosted_forEach veTotal gaugeTotal response accounts 0 []
      | _ \<Rightarrow> Inl TypeError)"

definition gaugeMaxBoostedDeposit :: "chain \<Rightarrow> jsval list \<Rightarrow> error + string dict" where
  "gaugeMaxBoostedDeposit ch args =
     (case as_addresses (unwrap_accounts args) of
        Inl e \<Rightarrow> Inl e
      | Inr accounts \<Rightarrow>
          (case gaugeMaxBoostedDepositBN ch accounts of
             Inl e \<Rightarrow> Inl e
           | Inr resultBN \<Rightarrow> Inr (formatEntries resultBN)))"

section \<open>gaugeOptimalDeposits\<close>

definition optimal_response :: "chain \<Rightarrow> string list \<Rightarrow> BigNumber list" where
  "optimal_response ch accounts =
     [veTotalSupply ch, gaugeTotalSupply ch]
     @ concat (map (\<lambda>a. [veBalanceOf ch a, lpBalanceOf ch a, gaugeBalanceOf ch a]) accounts)"

text \<open>
  Lines 203 to 209: for every account, in order, the share
  \<open>votePct[acct] = response[0].div(veTotalSupply)\<close> is stored, \<open>response[1]\<close> and
  \<open>response[2]\<close> are added to \<open>totalBalance\<close>, and three entries are spliced off the
  response.
\<close>

fun votePct_loop ::
  "BigNumber \<Rightarrow> string list \<Rightarrow> BigNumber list \<Rightarrow> BigNumber dict \<Rightarrow> BigNumber
    \<Rightarrow> error + (BigNumber dict \<times> BigNumber)" where
  "votePct_loop veTotal [] response votePct totalBalance = Inr (votePct, totalBalance)"
| "votePct_loop veTotal (acct # rest) (r0 # r1 # r2 # response) votePct totalBalance =
     (case bn_div r0 veTotal of
        Inl e \<Rightarrow> Inl e
      | Inr pct \<Rightarrow>
          votePct_loop veTotal rest response (dict_set votePct acct pct)
            (totalBalance + r1 + r2))"
| "votePct_loop veTotal (acct # rest) response votePct totalBalance = Inl TypeError"

text \<open>
  Lines 214 to 221, the loop of the first branch: the account receives its share times
  the gauge supply if that is less than what is left of \<open>totalBalance\<close>, and what is
  left otherwise; the loop is left as soon as nothing is left.
\<close>

fun under_loop ::
  "BigNumber dict \<Rightarrow> BigNumber \<Rightarrow> string list \<Rightarrow> BigNumber dict \<Rightarrow> BigNumber
    \<Rightarrow> error + BigNumber dict" where
  "under_loop votePct gaugeTotal [] optimalBN totalBalance = Inr optimalBN"
| "under_loop votePct gaugeTotal (acct # rest) optimalBN totalBalance =
     (case dict_get votePct acct of
        Inl e \<Rightarrow> Inl e
      | Inr pct \<Rightarrow>
          (let amount = (if pct * gaugeTotal < totalBalance then pct * gaugeTotal
                         else totalBalance);
               optimalBN' = dict_set optimalBN acct amount;
               totalBalance' = totalBalance - amount
           in if totalBalance' \<le> 0 then Inr optimalBN'
              else under_loop votePct gaugeTotal rest optimalBN' totalBalance'))"

text \<open>Lines 225 to 227, the loop guarded by \<open>totalPct.lt(0)\<close>.\<close>

fun share_loop ::
  "BigNumber dict \<Rightarrow> BigNumber \<Rightarrow> BigNumber \<Rightarrow> string list \<Rightarrow> BigNumber dict
    \<Rightarrow> error + BigNumber dict" where
  "share_loop votePct totalPct totalBalance [] optimalBN = Inr optimalBN"
| "share_loop votePct totalPct totalBalance (acct # rest) optimalBN =
     (case dict_get votePct acct of
        Inl e \<Rightarrow> Inl e
      | Inr pct \<Rightarrow>
          (case bn_div pct totalPct of
             Inl e \<Rightarrow> Inl e
           | Inr q \<Rightarrow>
               share_loop votePct totalPct totalBalance rest
                 (dict_set optimalBN acct (q * totalBalance))))"

text \<open>Line 229: the first account gets \<open>totalBalance\<close> minus the sum of all entries
  on top of its own entry.\<close>

definition add_remainder ::
  "string list \<Rightarrow> BigNumber \<Rightarrow> BigNumber dict \<Rightarrow> error + BigNumber dict" where
  "add_remainder accounts totalBalance optimalBN =
     (case accounts of
        [] \<Rightarrow> Inl TypeError
      | first # rest \<Rightarrow>
          (case dict_get optimalBN first of
             Inl e \<Rightarrow> Inl e
           | Inr own \<Rightarrow>
               (case reduce_add (dict_values optimalBN) of
                  Inl e \<Rightarrow> Inl e
                | Inr s \<Rightarrow> Inr (dict_set optimalBN first (own + (totalBalance - s))))))"

definition over_branch ::
  "BigNumber dict \<Rightarrow> BigNumber \<Rightarrow> BigNumber \<Rightarrow> string list \<Rightarrow> BigNumber dict
    \<Rightarrow> error + BigNumber dict" where
  "over_branch votePct totalPct totalBalance accounts optimalBN =
     (case (if totalPct < 0 then share_loop votePct totalPct totalBalance accounts optimalBN
            else Inr optimalBN) of
        Inl e \<Rightarrow> Inl e
      | Inr optimalBN' \<Rightarrow> add_remainder accounts totalBalance optimalBN')"

definition gaugeOptimalDepositsBN :: "chain \<Rightarrow> string list \<Rightarrow> error + BigNumber dict" where
  "gaugeOptimalDepositsBN ch accounts =
     (case optimal_response ch accounts of
        veTotal # gaugeTotal # response \<Rightarrow>
          (case votePct_loop veTotal accounts response [] 0 of
             Inl e \<Rightarrow> Inl e
           | Inr (votePct, totalBalance) \<Rightarrow>
               (case reduce_add (dict_values votePct) of
                  Inl e \<Rightarrow> Inl e
                | Inr totalPct \<Rightarrow>
                    (let optimalBN = fromEntries (map (\<lambda>acc. (acc, 0)) accounts) in
                     case bn_div totalBalance gaugeTotal of
                       Inl e \<Rightarrow> Inl e
                     | Inr quota \<Rightarrow>
                         if quota < totalPct
                         then under_loop votePct gaugeTotal accounts optimalBN totalBalance
                         else over_branch votePct totalPct totalBalance accounts optimalBN)))
      | _ \<Rightarrow> Inl TypeError)"

definition gaugeOptimalDeposits :: "chain \<Rightarrow> jsval list \<Rightarrow> error + string dict" where
  "gaugeOptimalDeposits ch args =
     (case as_addresses (unwrap_accounts args) of
        Inl e \<Rightarrow> Inl e
      | Inr accounts \<Rightarrow>
          (case gaugeOptimalDepositsBN ch accounts of
             Inl e \<Rightarrow> Inl e
           | Inr optimalBN \<Rightarrow> Inr (formatEntries optimalBN)))"

section \<open>Quantities of one call\<close>

text \<open>
  The local variables of \<open>gaugeOptimalDeposits\<close> as functions of the chain and of the
  account list: the share \<open>votePct[acct]\<close>, \<open>totalBalance\<close> as it is after the loop
  of lines 205 to 209 (every entry of the list adds its LP-token and gauge balance),
  and \<open>totalPct\<close>, the sum of the values of \<open>votePct\<close>, which has one entry for
  each account that occurs in the list. Lemma \<open>locals_of_call\<close> relates them to
  the loop of the model, and lemma \<open>gaugeOptimalDepositsBN_branches\<close> shows that the
  test of line 213 compares them.
\<close>

definition votePct_of :: "chain \<Rightarrow> string \<Rightarrow> BigNumber" where
  "votePct_of ch a = veBalanceOf ch a sdiv veTotalSupply ch"

definition totalBalance_of :: "chain \<Rightarrow> string list \<Rightarrow> BigNumber" where
  "totalBalance_of ch accounts =
     sum_list (map (\<lambda>a. lpBalanceOf ch a + gaugeBalanceOf ch a) accounts)"

definition totalPct_of :: "chain \<Rightarrow> string list \<Rightarrow> BigNumber" where
  "totalPct_of ch accounts = (\<Sum>a\<in>set accounts. votePct_of ch a)"

text \<open>What lines 224 to 227 leave in \<open>optimalBN[acct]\<close>: the initial zero, unless
  \<open>totalPct\<close> is negative.\<close>

definition share_of :: "chain \<Rightarrow> string list \<Rightarrow> string \<Rightarrow> BigNumber" where
  "share_of ch accounts a =
     (if totalPct_of ch accounts < 0
      then (votePct_of ch a sdiv totalPct_of ch accounts) * totalBalance_of ch accounts
      else 0)"

text \<open>Storing \<open>f acct\<close> under every account of a list, in order.\<close>

definition assign_all :: "(string \<Rightarrow> 'v) \<Rightarrow> string list \<Rightarrow> 'v dict \<Rightarrow> 'v dict" where
  "assign_all f accounts d = foldl (\<lambda>d a. dict_set d a (f a)) d accounts"

section \<open>The first branch as the specification words it\<close>

text \<open>
  The specification describes the first branch by what each account is given: going
  through the accounts in input order, an account is given the minimum of its cap and
  of the remaining balance, the remaining balance is decremented by what was given,
  and once it has reached zero every later account is given zero. This function
  computes the amounts given, from the list of caps and the balance to distribute.
\<close>

fun spec_undersubscribed :: "int list \<Rightarrow> int \<Rightarrow> int list" where
  "spec_undersubscribed [] remaining = []"
| "spec_undersubscribed (cap # caps) remaining =
     (let given = min cap remaining; remaining' = remaining - given
      in given # (if remaining' = 0 then map (\<lambda>c. 0) caps else spec_undersubscribed caps remaining'))"

section \<open>Reading a rendered amount\<close>

text \<open>
  The functions return amounts as the strings \<open>formatUnits\<close> renders. What such a
  string denotes, in units of \<open>10 ^ -18\<close>, is read back by \<open>amount_of\<close>: an optional
  minus sign, the digits of the whole part up to the dot, and the fraction padded with
  zeros on the right to 18 digits. Lemma \<open>amount_of_formatUnits\<close> below shows that it
  reads every rendered BigNumber back exactly.
\<close>

definition digit_value :: "char \<Rightarrow> nat" where
  "digit_value c = of_char c - 48"

definition fromDigits :: "string \<Rightarrow> nat" where
  "fromDigits s = foldl (\<lambda>n c. 10 * n + digit_value c) 0 s"

definition amount_of :: "string \<Rightarrow> int" where
  "amount_of s =
     (let negative = (s \<noteq> [] \<and> hd s = CHR ''-'');
          body = (if negative then tl s else s);
          whole = takeWhile (\<lambda>c. c \<noteq> CHR ''.'') body;
          fraction = drop 1 (dropWhile (\<lambda>c. c \<noteq> CHR ''.'') body);
          magnitude = int (fromDigits whole * 10 ^ 18
                           + fromDigits (fraction @ replicate (18 - length fraction) (CHR ''0'')))
      in if negative then - magnitude else magnitude)"

definition amounts :: "string dict \<Rightarrow> BigNumber dict" where
  "amounts r = map (\<lambda>(k, s). (k, amount_of s)) r"

section \<open>The accounts an argument list names\<close>

text \<open>The strings that occur in an argument, as a string itself or in an array.\<close>

fun mentioned :: "jsval \<Rightarrow> string list" where
  "mentioned (JString s) = [s]"
| "mentioned (JArray xs) = xs"

section \<open>Concrete chains\<close>

text \<open>A chain given by its two total supplies and a table of the voting-escrow,
  LP-token and gauge balance of each account; an account that is not in the table holds
  nothing.\<close>

definition chain_of ::
  "BigNumber \<Rightarrow> BigNumber \<Rightarrow> (string \<times> BigNumber \<times> BigNumber \<times> BigNumber) list \<Rightarrow> chain" where
  "chain_of veTotal gaugeTotal table =
     \<lparr> veTotalSupply = veTotal, gaugeTotalSupply = gaugeTotal,
       veBalanceOf = (\<lambda>a. case map_of table a of Some (ve, lp, g) \<Rightarrow> ve | None \<Rightarrow> 0),
       lpBalanceOf = (\<lambda>a. case map_of table a of Some (ve, lp, g) \<Rightarrow> lp | None \<Rightarrow> 0),
       gaugeBalanceOf = (\<lambda>a. case map_of table a of Some (ve, lp, g) \<Rightarrow> g | None \<Rightarrow> 0) \<rparr>"

section \<open>Dictionaries\<close>

lemma map_of_dict_set: "map_of (dict_set d k v) = (map_of d)(k \<mapsto> v)"
  by (induction d) (auto simp: fun_eq_iff)

lemma map_fst_dict_set:
  "map fst (dict_set d k v) = (if k \<in> set (map fst d) then map fst d else map fst d @ [k])"
  by (induction d) (force+)

lemma keys_dict_set: "set (map fst (dict_set d k v)) = insert k (set (map fst d))"
  by (auto simp: map_fst_dict_set)

lemma distinct_dict_set:
  "distinct (map fst d) \<Longrightarrow> distinct (map fst (dict_set d k v))"
  by (simp add: map_fst_dict_set)

lemma dict_set_fresh: "k \<notin> set (map fst d) \<Longrightarrow> dict_set d k v = d @ [(k, v)]"
  by (induction d) auto

lemma dict_set_middle:
  "k \<notin> set (map fst d1) \<Longrightarrow> dict_set (d1 @ (k, w) # d2) k v = d1 @ (k, v) # d2"
  by (induction d1) auto

lemma sum_dict_set:
  "distinct (map fst d) \<Longrightarrow>
   sum_list (map snd (dict_set d k v))
     = sum_list (map snd d) - (case map_of d k of None \<Rightarrow> 0 | Some w \<Rightarrow> w) + (v::int)"
proof (induction d)
  case Nil
  then show ?case by simp
next
  case (Cons p d)
  obtain k' v' where p: "p = (k', v')" by (cases p)
  show ?case
  proof (cases "k' = k")
    case True
    with Cons.prems have "map_of d k = None"
      by (simp add: p map_of_eq_None_iff)
    with True show ?thesis by (simp add: p)
  next
    case False
    with Cons show ?thesis by (simp add: p)
  qed
qed

lemma reduce_add_sum: "xs \<noteq> [] \<Longrightarrow> reduce_add xs = Inr (sum_list xs)"
proof (cases xs)
  case Nil
  then show "xs \<noteq> [] \<Longrightarrow> ?thesis" by simp
next
  case (Cons x ys)
  have "foldl (+) a ys = a + sum_list ys" for a :: int
    by (induction ys arbitrary: a) simp_all
  with Cons show ?thesis by simp
qed

lemma sum_dict_values:
  "distinct (map fst d) \<Longrightarrow> \<forall>k \<in> fst ` set d. map_of d k = Some (f k) \<Longrightarrow>
   sum_list (map snd d) = (sum f (fst ` set d) :: int)"
proof (induction d)
  case Nil
  then show ?case by simp
next
  case (Cons p d)
  obtain k v where p: "p = (k, v)" by (cases p)
  from Cons.prems have k: "k \<notin> fst ` set d" and dd: "distinct (map fst d)"
    by (auto simp: p)
  from Cons.prems have v: "v = f k" by (simp add: p)
  have "\<forall>k' \<in> fst ` set d. map_of d k' = Some (f k')"
  proof
    fix k' assume k': "k' \<in> fst ` set d"
    with k have "k' \<noteq> k" by auto
    with Cons.prems(2) k' show "map_of d k' = Some (f k')" by (auto simp: p)
  qed
  with Cons.IH dd have "sum_list (map snd d) = sum f (fst ` set d)" by blast
  with k v show ?case by (simp add: p)
qed

lemma assign_all_Nil [simp]: "assign_all f [] d = d"
  by (simp add: assign_all_def)

lemma assign_all_Cons [simp]: "assign_all f (a # as) d = assign_all f as (dict_set d a (f a))"
  by (simp add: assign_all_def)

lemma map_of_assign_all:
  "map_of (assign_all f as d) k = (if k \<in> set as then Some (f k) else map_of d k)"
  by (induction as arbitrary: d) (auto simp: map_of_dict_set)

lemma keys_assign_all: "set (map fst (assign_all f as d)) = set (map fst d) \<union> set as"
  by (induction as arbitrary: d) (auto simp: keys_dict_set simp del: set_map)

lemma distinct_assign_all:
  "distinct (map fst d) \<Longrightarrow> distinct (map fst (assign_all f as d))"
  by (induction as arbitrary: d) (auto simp: distinct_dict_set)

lemma assign_all_fresh:
  "distinct as \<Longrightarrow> set as \<inter> set (map fst d) = {} \<Longrightarrow>
   assign_all f as d = d @ map (\<lambda>a. (a, f a)) as"
proof (induction as arbitrary: d)
  case Nil
  then show ?case by simp
next
  case (Cons a as)
  from Cons.prems have a: "a \<notin> set (map fst d)" by auto
  from Cons.prems have "set as \<inter> set (map fst (d @ [(a, f a)])) = {}" by auto
  with Cons.IH [of "d @ [(a, f a)]"] Cons.prems(1) a show ?case
    by (simp add: dict_set_fresh)
qed

lemma fromEntries_const:
  "fromEntries (map (\<lambda>acc. (acc, c)) accounts) = assign_all (\<lambda>a. c) accounts []"
proof -
  have "foldl (\<lambda>d (k, v). dict_set d k v) d (map (\<lambda>acc. (acc, c)) accounts)
          = assign_all (\<lambda>a. c) accounts d" for d
    by (induction accounts arbitrary: d) simp_all
  then show ?thesis by (simp add: fromEntries_def)
qed

lemma sum_assign_all:
  "sum_list (map snd (assign_all f as [])) = (sum f (set as) :: int)"
proof -
  have "distinct (map fst (assign_all f as []))"
    by (simp add: distinct_assign_all)
  moreover have "\<forall>k \<in> fst ` set (assign_all f as []). map_of (assign_all f as []) k = Some (f k)"
    using keys_assign_all [of f as "[]"] by (auto simp: map_of_assign_all)
  ultimately have "sum_list (map snd (assign_all f as [])) = sum f (fst ` set (assign_all f as []))"
    by (rule sum_dict_values)
  also have "fst ` set (assign_all f as []) = set as"
    using keys_assign_all [of f as "[]"] by simp
  finally show ?thesis .
qed

lemma votePct_loop_eq:
  "votePct_loop vt accounts
     (concat (map (\<lambda>a. [veBalanceOf ch a, lpBalanceOf ch a, gaugeBalanceOf ch a]) accounts)) vp tb
   = (if vt = 0 \<and> accounts \<noteq> [] then Inl NumericFault
      else Inr (assign_all (\<lambda>a. veBalanceOf ch a sdiv vt) accounts vp,
                tb + sum_list (map (\<lambda>a. lpBalanceOf ch a + gaugeBalanceOf ch a) accounts)))"
  by (induction accounts arbitrary: vp tb) (simp_all add: bn_div_def)

lemma share_loop_eq:
  "tp \<noteq> 0 \<Longrightarrow> \<forall>a \<in> set accounts. map_of vp a = Some (p a) \<Longrightarrow>
   share_loop vp tp tb accounts opt = Inr (assign_all (\<lambda>a. (p a sdiv tp) * tb) accounts opt)"
  by (induction accounts arbitrary: opt) (simp_all add: bn_div_def dict_get_def)

lemma maxBoosted_forEach_eq:
  "vt \<noteq> 0 \<Longrightarrow>
   maxBoosted_forEach vt gt (map ve (pre @ rest)) rest (length pre) d
     = Inr (assign_all (\<lambda>a. (gt * ve a) sdiv vt) rest d)"
proof (induction rest arbitrary: pre d)
  case Nil
  then show ?case by simp
next
  case (Cons a rest)
  from Cons.IH [of "pre @ [a]"] Cons.prems show ?case
    by (simp add: bn_div_def nth_append)
qed

lemma under_loop_eq:
  "distinct rest \<Longrightarrow> set rest \<inter> set (map fst d1) = {} \<Longrightarrow>
   \<forall>a \<in> set rest. map_of vp a = Some (p a) \<Longrightarrow>
   under_loop vp gt rest (d1 @ map (\<lambda>a. (a, 0)) rest) remaining
     = Inr (d1 @ zip rest (spec_undersubscribed (map (\<lambda>a. p a * gt) rest) remaining))"
proof (induction rest arbitrary: d1 remaining)
  case Nil
  then show ?case by simp
next
  case (Cons a rest)
  let ?given = "min (p a * gt) remaining"
  from Cons.prems have a: "a \<notin> set (map fst d1)" by auto
  have upd: "dict_set (d1 @ (a, 0) # map (\<lambda>a. (a, 0)) rest) a ?given
               = (d1 @ [(a, ?given)]) @ map (\<lambda>a. (a, 0)) rest"
    using a by (simp add: dict_set_middle)
  from Cons.prems have ih_pre:
    "distinct rest" "set rest \<inter> set (map fst (d1 @ [(a, ?given)])) = {}"
    "\<forall>a \<in> set rest. map_of vp a = Some (p a)"
    by auto
  have nonneg: "0 \<le> remaining - ?given" by simp
  have zeros: "map (\<lambda>a. (a, 0::int)) rest = zip rest (map (\<lambda>c. 0) (map (\<lambda>a. p a * gt) rest))"
    by (induction rest) simp_all
  have if_min: "(if p a * gt < remaining then p a * gt else remaining) = ?given"
    by (simp add: min_def)
  show ?case
  proof (cases "remaining - ?given = 0")
    case True
    with Cons.prems(3) upd zeros show ?thesis
      by (simp add: dict_get_def if_min Let_def del: dict_set.simps)
  next
    case False
    with nonneg have "\<not> remaining - ?given \<le> 0" by linarith
    with False Cons.prems(3) upd Cons.IH [OF ih_pre, of "remaining - ?given"] show ?thesis
      by (simp add: dict_get_def if_min Let_def del: dict_set.simps)
  qed
qed

lemma sum_spec_undersubscribed:
  "caps \<noteq> [] \<Longrightarrow> remaining \<le> sum_list caps \<Longrightarrow>
   sum_list (spec_undersubscribed caps remaining) = remaining"
proof (induction caps arbitrary: remaining)
  case Nil
  then show ?case by simp
next
  case (Cons c caps)
  show ?case
  proof (cases "remaining \<le> c")
    case True
    then show ?thesis by (simp add: min_def Let_def)
  next
    case False
    then have lt: "c < remaining" by simp
    with Cons.prems have le: "remaining - c \<le> sum_list caps" by simp
    with lt have "caps \<noteq> []" by auto
    with Cons.IH le have "sum_list (spec_undersubscribed caps (remaining - c)) = remaining - c" by blast
    with lt show ?thesis by (simp add: min_def Let_def)
  qed
qed

lemma gaugeOptimalDepositsBN_branches:
  assumes "accounts \<noteq> []" "veTotalSupply ch \<noteq> 0" "gaugeTotalSupply ch \<noteq> 0"
  shows "gaugeOptimalDepositsBN ch accounts =
     (if totalBalance_of ch accounts sdiv gaugeTotalSupply ch < totalPct_of ch accounts
      then under_loop (assign_all (votePct_of ch) accounts []) (gaugeTotalSupply ch) accounts
             (assign_all (\<lambda>a. 0) accounts []) (totalBalance_of ch accounts)
      else over_branch (assign_all (votePct_of ch) accounts []) (totalPct_of ch accounts)
             (totalBalance_of ch accounts) accounts (assign_all (\<lambda>a. 0) accounts []))"
proof -
  let ?vp = "assign_all (votePct_of ch) accounts []"
  have loop: "votePct_loop (veTotalSupply ch) accounts
       (concat (map (\<lambda>a. [veBalanceOf ch a, lpBalanceOf ch a, gaugeBalanceOf ch a]) accounts)) [] 0
     = Inr (?vp, totalBalance_of ch accounts)"
  proof -
    have "votePct_of ch = (\<lambda>a. veBalanceOf ch a sdiv veTotalSupply ch)"
      by (simp add: fun_eq_iff votePct_of_def)
    with assms(2) show ?thesis
      by (simp add: votePct_loop_eq totalBalance_of_def)
  qed
  from assms(1) have "set (map fst ?vp) \<noteq> {}"
    by (simp add: keys_assign_all del: set_map)
  then have "dict_values ?vp \<noteq> []"
    by (auto simp: dict_values_def)
  then have "reduce_add (dict_values ?vp) = Inr (sum_list (dict_values ?vp))"
    by (rule reduce_add_sum)
  then have total: "reduce_add (dict_values ?vp) = Inr (totalPct_of ch accounts)"
    by (simp add: dict_values_def sum_assign_all totalPct_of_def)
  show ?thesis
    unfolding gaugeOptimalDepositsBN_def optimal_response_def
    using assms(3) by (simp add: loop total fromEntries_const bn_div_def)
qed

lemma over_branch_result:
  assumes "accounts \<noteq> []"
  shows "\<exists>d. over_branch (assign_all (votePct_of ch) accounts []) (totalPct_of ch accounts)
             (totalBalance_of ch accounts) accounts (assign_all (\<lambda>a. 0) accounts []) = Inr d
          \<and> set (map fst d) = set accounts \<and> distinct (map fst d)
          \<and> (\<forall>a \<in> set accounts. map_of d a =
               Some (share_of ch accounts a +
                 (if a = hd accounts
                  then totalBalance_of ch accounts - (\<Sum>b\<in>set accounts. share_of ch accounts b)
                  else 0)))
          \<and> sum_list (dict_values d) = totalBalance_of ch accounts"
proof -
  let ?vp = "assign_all (votePct_of ch) accounts []"
  let ?zero = "assign_all (\<lambda>a. 0::int) accounts []"
  let ?tp = "totalPct_of ch accounts"
  let ?tb = "totalBalance_of ch accounts"
  let ?share = "share_of ch accounts"
  define opt where "opt = (if ?tp < 0
      then assign_all (\<lambda>a. (votePct_of ch a sdiv ?tp) * ?tb) accounts ?zero else ?zero)"
  have vp: "\<forall>a \<in> set accounts. map_of ?vp a = Some (votePct_of ch a)"
    by (simp add: map_of_assign_all)
  have stage: "(if ?tp < 0 then share_loop ?vp ?tp ?tb accounts ?zero else Inr ?zero) = Inr opt"
    using share_loop_eq [OF _ vp, of ?tp ?tb ?zero] by (simp add: opt_def)
  have keys: "set (map fst opt) = set accounts"
    by (simp add: opt_def keys_assign_all del: set_map)
  have dist: "distinct (map fst opt)"
    by (simp add: opt_def distinct_assign_all)
  have look: "\<forall>a \<in> set accounts. map_of opt a = Some (?share a)"
    by (simp add: opt_def map_of_assign_all share_of_def)
  obtain first rest where acc: "accounts = first # rest"
    using assms by (cases accounts) auto
  have first: "dict_get opt first = Inr (?share first)"
    using look by (simp add: acc dict_get_def)
  from keys assms have "dict_values opt \<noteq> []"
    by (auto simp: dict_values_def)
  then have "reduce_add (dict_values opt) = Inr (sum_list (dict_values opt))"
    by (rule reduce_add_sum)
  moreover have total: "sum_list (map snd opt) = sum ?share (set accounts)"
  proof -
    have "sum_list (map snd opt) = sum ?share (fst ` set opt)"
      using dist look keys by (intro sum_dict_values) auto
    with keys show ?thesis by simp
  qed
  ultimately have red: "reduce_add (dict_values opt) = Inr (sum ?share (set accounts))"
    by (simp add: dict_values_def)
  let ?d = "dict_set opt first (?share first + (?tb - sum ?share (set accounts)))"
  have res: "over_branch ?vp ?tp ?tb accounts ?zero = Inr ?d"
    unfolding over_branch_def stage by (simp add: add_remainder_def acc first red [unfolded acc])
  have k: "set (map fst ?d) = set accounts"
    using keys by (simp add: keys_dict_set acc del: set_map)
  have d: "distinct (map fst ?d)"
    using dist by (rule distinct_dict_set)
  have l: "\<forall>a \<in> set accounts. map_of ?d a =
      Some (?share a + (if a = hd accounts then ?tb - sum ?share (set accounts) else 0))"
    using look by (simp add: map_of_dict_set acc)
  have "map_of opt first = Some (?share first)"
    using look by (simp add: acc)
  then have s: "sum_list (dict_values ?d) = ?tb"
    using sum_dict_set [OF dist, of first] total by (simp add: dict_values_def)
  from res k d l s show ?thesis by blast
qed

lemma length_spec_undersubscribed [simp]:
  "length (spec_undersubscribed caps remaining) = length caps"
  by (induction caps arbitrary: remaining) (simp_all add: Let_def)

lemma sdiv_less_imp_le_mult:
  fixes tb g tp :: int
  assumes "0 < g" "tb sdiv g < tp"
  shows "tb \<le> tp * g"
proof -
  have "tb \<le> (tb sdiv g + 1) * g"
  proof (cases "0 \<le> tb")
    case True
    with assms(1) have q: "tb sdiv g = tb div g"
      by (simp add: signed_divide_int_def sgn_if)
    have "g * (tb div g) + tb mod g = tb" by simp
    moreover from assms(1) have "tb mod g < g" by simp
    ultimately have "tb < g * (tb div g) + g" by linarith
    then show ?thesis by (simp add: q algebra_simps)
  next
    case False
    with assms(1) have q: "tb sdiv g = - ((- tb) div g)"
      by (simp add: signed_divide_int_def sgn_if)
    have "g * ((- tb) div g) + (- tb) mod g = - tb" by simp
    moreover from assms(1) have "0 \<le> (- tb) mod g" by simp
    ultimately have "g * ((- tb) div g) \<le> - tb" by linarith
    with assms(1) show ?thesis by (simp add: q algebra_simps)
  qed
  also from assms have "(tb sdiv g + 1) * g \<le> tp * g"
    by (intro mult_right_mono) simp_all
  finally show ?thesis .
qed

lemma under_branch_result:
  assumes "distinct accounts"
  shows "under_loop (assign_all (votePct_of ch) accounts []) (gaugeTotalSupply ch) accounts
           (assign_all (\<lambda>a. 0) accounts []) (totalBalance_of ch accounts)
         = Inr (zip accounts
             (spec_undersubscribed (map (\<lambda>a. votePct_of ch a * gaugeTotalSupply ch) accounts)
                (totalBalance_of ch accounts)))"
proof -
  have zero: "assign_all (\<lambda>a. 0::int) accounts [] = [] @ map (\<lambda>a. (a, 0)) accounts"
    using assms by (simp add: assign_all_fresh)
  have vp: "\<forall>a \<in> set accounts. map_of (assign_all (votePct_of ch) accounts []) a
              = Some (votePct_of ch a)"
    by (simp add: map_of_assign_all)
  show ?thesis
    unfolding zero using under_loop_eq [OF assms _ vp, of "[]"] by simp
qed

lemma map_fst_assign_all_present:
  "set as \<subseteq> set (map fst d) \<Longrightarrow> map fst (assign_all f as d) = map fst d"
proof (induction as arbitrary: d)
  case Nil
  then show ?case by simp
next
  case (Cons a as)
  then have same: "map fst (dict_set d a (f a)) = map fst d"
    by (simp add: map_fst_dict_set del: set_map)
  with Cons.prems have "set as \<subseteq> set (map fst (dict_set d a (f a)))"
    by simp
  from Cons.IH [OF this] same show ?case by simp
qed

lemma over_branch_keys:
  assumes "over_branch (assign_all (votePct_of ch) accounts []) tp tb accounts
             (assign_all (\<lambda>a. 0) accounts []) = Inr d"
  shows "map fst d = map fst (assign_all (\<lambda>a. 0::int) accounts [])"
proof -
  let ?vp = "assign_all (votePct_of ch) accounts []"
  let ?zero = "assign_all (\<lambda>a. 0::int) accounts []"
  have sub: "set accounts \<subseteq> set (map fst ?zero)"
    by (simp add: keys_assign_all del: set_map)
  have vp: "\<forall>a \<in> set accounts. map_of ?vp a = Some (votePct_of ch a)"
    by (simp add: map_of_assign_all)
  obtain opt where stage:
    "(if tp < 0 then share_loop ?vp tp tb accounts ?zero else Inr ?zero) = Inr opt"
    and keys: "map fst opt = map fst ?zero"
    using share_loop_eq [OF _ vp, of tp tb ?zero] map_fst_assign_all_present [OF sub]
    by (cases "tp < 0") auto
  from assms obtain first rest v where acc: "accounts = first # rest"
    and d: "d = dict_set opt first v"
    unfolding over_branch_def stage
    by (auto simp: add_remainder_def split: list.splits sum.splits)
  from sub have "first \<in> set (map fst opt)"
    unfolding keys acc by simp
  then show ?thesis
    unfolding d by (simp add: map_fst_dict_set keys del: set_map)
qed

section \<open>Calling forms and failures\<close>

lemma unwrap_accounts_array: "unwrap_accounts [JArray xs] = map JString xs"
  by (simp add: unwrap_accounts_def)

lemma unwrap_accounts_strings: "unwrap_accounts (map JString xs) = map JString xs"
proof (cases xs)
  case Nil
  then show ?thesis by (simp add: unwrap_accounts_def)
next
  case (Cons x ys)
  then show ?thesis by (cases ys) (simp_all add: unwrap_accounts_def)
qed

lemma as_addresses_strings: "as_addresses (map JString xs) = Inr xs"
  by (induction xs) simp_all

lemma gaugeOptimalDeposits_strings:
  "gaugeOptimalDeposits ch (map JString accounts)
   = (case gaugeOptimalDepositsBN ch accounts of
        Inl e \<Rightarrow> Inl e | Inr optimalBN \<Rightarrow> Inr (formatEntries optimalBN))"
  by (simp add: gaugeOptimalDeposits_def unwrap_accounts_strings as_addresses_strings)

lemma gaugeMaxBoostedDeposit_strings:
  "gaugeMaxBoostedDeposit ch (map JString accounts)
   = (case gaugeMaxBoostedDepositBN ch accounts of
        Inl e \<Rightarrow> Inl e | Inr resultBN \<Rightarrow> Inr (formatEntries resultBN))"
  by (simp add: gaugeMaxBoostedDeposit_def unwrap_accounts_strings as_addresses_strings)

lemma gaugeOptimalDepositsBN_no_accounts: "gaugeOptimalDepositsBN ch [] = Inl TypeError"
  by (simp add: gaugeOptimalDepositsBN_def optimal_response_def dict_values_def)

lemma gaugeMaxBoostedDeposit_no_accounts:
  "gaugeMaxBoostedDeposit ch [] = Inr [] \<and> gaugeMaxBoostedDeposit ch [JArray []] = Inr []"
  by (simp add: gaugeMaxBoostedDeposit_def unwrap_accounts_def gaugeMaxBoostedDepositBN_def
      maxBoosted_response_def formatEntries_def fromEntries_def)

lemma gaugeOptimalDepositsBN_zero_supply:
  assumes "gaugeTotalSupply ch = 0"
  shows "gaugeOptimalDepositsBN ch accounts
         = Inl (if accounts = [] then TypeError else NumericFault)"
proof (cases "accounts = []")
  case True
  then show ?thesis by (simp add: gaugeOptimalDepositsBN_no_accounts)
next
  case False
  let ?vp = "assign_all (\<lambda>a. veBalanceOf ch a sdiv veTotalSupply ch) accounts []"
  from False have "set (map fst ?vp) \<noteq> {}"
    by (simp add: keys_assign_all del: set_map)
  then have "dict_values ?vp \<noteq> []"
    by (auto simp: dict_values_def)
  then have "reduce_add (dict_values ?vp) = Inr (sum_list (dict_values ?vp))"
    by (rule reduce_add_sum)
  with False assms show ?thesis
    by (simp add: gaugeOptimalDepositsBN_def optimal_response_def votePct_loop_eq bn_div_def)
qed

lemma gaugeMaxBoostedDepositBN_eq:
  assumes "veTotalSupply ch \<noteq> 0"
  shows "gaugeMaxBoostedDepositBN ch accounts
         = Inr (assign_all (\<lambda>a. (gaugeTotalSupply ch * veBalanceOf ch a) sdiv veTotalSupply ch)
                  accounts [])"
  using maxBoosted_forEach_eq [OF assms, of "gaugeTotalSupply ch" "veBalanceOf ch" "[]" accounts "[]"]
  by (simp add: gaugeMaxBoostedDepositBN_def maxBoosted_response_def)

lemma as_addresses_mentioned:
  "as_addresses vs = Inr accounts \<Longrightarrow> set accounts \<subseteq> set (concat (map mentioned vs))"
proof (induction vs arbitrary: accounts)
  case Nil
  then show ?case by simp
next
  case (Cons v vs)
  then show ?case
    by (cases v) (auto split: sum.splits)
qed

lemma unwrap_accounts_mentioned:
  "set (concat (map mentioned (unwrap_accounts args))) \<subseteq> set (concat (map mentioned args))"
proof (cases "length args = 1 \<and> isArray (args ! 0)")
  case True
  then obtain xs where "args = [JArray xs]"
    by (cases args; cases "hd args") auto
  then show ?thesis by (simp add: unwrap_accounts_array)
next
  case False
  then have "unwrap_accounts args = args"
    unfolding unwrap_accounts_def by (rule if_not_P)
  then show ?thesis by simp
qed

lemma optimal_response_cong:
  assumes "veTotalSupply ch = veTotalSupply ch'" and "gaugeTotalSupply ch = gaugeTotalSupply ch'"
      and "\<forall>a \<in> set accounts. veBalanceOf ch a = veBalanceOf ch' a
             \<and> lpBalanceOf ch a = lpBalanceOf ch' a \<and> gaugeBalanceOf ch a = gaugeBalanceOf ch' a"
  shows "optimal_response ch accounts = optimal_response ch' accounts"
    and "maxBoosted_response ch accounts = maxBoosted_response ch' accounts"
proof -
  from assms(3) have triples:
    "map (\<lambda>a. [veBalanceOf ch a, lpBalanceOf ch a, gaugeBalanceOf ch a]) accounts
      = map (\<lambda>a. [veBalanceOf ch' a, lpBalanceOf ch' a, gaugeBalanceOf ch' a]) accounts"
    by (intro map_cong) simp_all
  show "optimal_response ch accounts = optimal_response ch' accounts"
    unfolding optimal_response_def assms(1) assms(2) triples ..
  from assms(3) have singles: "map (veBalanceOf ch) accounts = map (veBalanceOf ch') accounts"
    by (intro map_cong) simp_all
  show "maxBoosted_response ch accounts = maxBoosted_response ch' accounts"
    unfolding maxBoosted_response_def assms(1) assms(2) singles ..
qed

lemma formatUnits_examples:
  "formatUnits 200000000000000000000 18 = ''200.0''"
  "formatUnits 0 18 = ''0.0''"
  unfolding formatUnits_def Let_def
  by (simp_all add: toString.simps padStart_def stripZeros_def digit_def)

section \<open>Rendering and reading back\<close>

lemma digit_cases: "d < 10 \<Longrightarrow> d \<in> {0, 1, 2, 3, 4, 5, 6, 7, 8, 9::nat}"
  by auto

lemma digit_value_digit: "d < 10 \<Longrightarrow> digit_value (digit d) = d"
  using digit_cases [of d] by (auto simp: digit_value_def digit_def)

lemma digit_is_digit: "d < 10 \<Longrightarrow> digit d \<in> set ''0123456789''"
  unfolding digit_def by (rule nth_mem) simp

lemma fromDigits_snoc: "fromDigits (s @ [c]) = 10 * fromDigits s + digit_value c"
  by (simp add: fromDigits_def)

lemma fromDigits_toString: "fromDigits (toString n) = n"
proof (induction n rule: toString.induct)
  case (1 n)
  show ?case
  proof (cases "n < 10")
    case True
    then show ?thesis
      by (subst toString.simps) (simp add: fromDigits_def digit_value_digit)
  next
    case False
    with "1" have "fromDigits (toString (n div 10)) = n div 10" by simp
    with False show ?thesis
      by (subst toString.simps) (simp add: fromDigits_snoc digit_value_digit)
  qed
qed

lemma toString_digits: "set (toString n) \<subseteq> set ''0123456789''"
proof (induction n rule: toString.induct)
  case (1 n)
  show ?case
  proof (cases "n < 10")
    case True
    with digit_is_digit [of n] show ?thesis
      by (subst toString.simps) simp
  next
    case False
    with "1" have "set (toString (n div 10)) \<subseteq> set ''0123456789''" by simp
    moreover have "digit (n mod 10) \<in> set ''0123456789''"
      by (rule digit_is_digit) simp
    ultimately show ?thesis using False
      by (subst toString.simps) simp
  qed
qed

lemma toString_nonempty: "toString n \<noteq> []"
  by (subst toString.simps) simp

lemma length_toString: "n < 10 ^ k \<Longrightarrow> 0 < k \<Longrightarrow> length (toString n) \<le> k"
proof (induction k arbitrary: n)
  case 0
  then show ?case by simp
next
  case (Suc k)
  show ?case
  proof (cases "n < 10")
    case True
    then show ?thesis by (subst toString.simps) simp
  next
    case False
    with Suc.prems have k: "0 < k" by (cases k) simp_all
    from Suc.prems have "n div 10 < 10 ^ k" by (simp add: less_mult_imp_div_less mult.commute)
    with Suc.IH k have "length (toString (n div 10)) \<le> k" by blast
    with False show ?thesis by (subst toString.simps) simp
  qed
qed

lemma fromDigits_zeros: "fromDigits (replicate m (CHR ''0'') @ s) = fromDigits s"
proof -
  have "foldl (\<lambda>n c. 10 * n + digit_value c) 0 (replicate m (CHR ''0'')) = 0"
    by (induction m) (simp_all add: digit_value_def)
  then show ?thesis by (simp add: fromDigits_def)
qed

lemma strip_pad:
  assumes "length p = 18"
  shows "stripZeros p @ replicate (18 - length (stripZeros p)) (CHR ''0'') = p"
proof -
  define tk where "tk = takeWhile (\<lambda>c. c = CHR ''0'') (rev p)"
  define t where "t = rev (dropWhile (\<lambda>c. c = CHR ''0'') (rev p))"
  have tk: "tk = replicate (length tk) (CHR ''0'')"
    unfolding tk_def by (rule replicate_length_same [symmetric]) (auto dest: set_takeWhileD)
  have "rev p = tk @ rev t"
    by (simp add: tk_def t_def)
  then have "rev (rev p) = rev (tk @ rev t)"
    by (rule arg_cong)
  then have "p = t @ rev tk"
    by simp
  also have "rev tk = replicate (length tk) (CHR ''0'')"
    by (subst tk) (simp only: rev_replicate)
  finally have p: "p = t @ replicate (length tk) (CHR ''0'')" .
  then have "length p = length t + length tk"
    by (metis length_append length_replicate)
  with assms have len: "length t + length tk = 18"
    by simp
  have strip: "stripZeros p = (if t = [] then ''0'' else t)"
    by (simp add: stripZeros_def t_def)
  show ?thesis
  proof (cases "t = []")
    case True
    then have sp: "stripZeros p = ''0''"
      by (simp add: strip)
    from True len have "length tk = 18" by simp
    with p True have "p = replicate 18 (CHR ''0'')" by simp
    moreover have "''0'' @ replicate (18 - length ''0'') (CHR ''0'') = replicate 18 (CHR ''0'')"
      by (simp add: numeral_eq_Suc)
    ultimately show ?thesis unfolding sp by simp
  next
    case False
    then have sp: "stripZeros p = t"
      by (simp add: strip)
    from len have "18 - length t = length tk" by simp
    then show ?thesis unfolding sp using p by simp
  qed
qed

lemma amount_of_parts:
  assumes "\<forall>c \<in> set W. c \<noteq> CHR ''.''" and "W \<noteq> []" and "hd W \<noteq> CHR ''-''"
  shows "amount_of (W @ ''.'' @ F)
         = int (fromDigits W * 10 ^ 18 + fromDigits (F @ replicate (18 - length F) (CHR ''0'')))"
    and "amount_of (CHR ''-'' # W @ ''.'' @ F)
         = - int (fromDigits W * 10 ^ 18 + fromDigits (F @ replicate (18 - length F) (CHR ''0'')))"
  using assms
  by (simp_all add: amount_of_def Let_def takeWhile_append2 dropWhile_append2)

lemma amount_of_formatUnits: "amount_of (formatUnits v 18) = v"
proof -
  define a where "a = nat \<bar>v\<bar>"
  define W where "W = toString (a div 10 ^ 18)"
  define P where "P = padStart 18 (toString (a mod 10 ^ 18))"
  define F where "F = stripZeros P"
  have fmt: "formatUnits v 18 = (if v < 0 then ''-'' else []) @ W @ ''.'' @ F"
    by (simp add: formatUnits_def Let_def W_def P_def F_def a_def)
  have Wd: "set W \<subseteq> set ''0123456789''"
    unfolding W_def by (rule toString_digits)
  have Wn: "W \<noteq> []"
    unfolding W_def by (rule toString_nonempty)
  have "length (toString (a mod 10 ^ 18)) \<le> 18"
    by (rule length_toString) simp_all
  then have Pl: "length P = 18"
    by (simp add: P_def padStart_def)
  have Pv: "fromDigits P = a mod 10 ^ 18"
    by (simp add: P_def padStart_def fromDigits_zeros fromDigits_toString)
  have FP: "F @ replicate (18 - length F) (CHR ''0'') = P"
    unfolding F_def using Pl by (rule strip_pad)
  have nodot: "\<forall>c \<in> set W. c \<noteq> CHR ''.''"
    using Wd by auto
  have hdW: "hd W \<noteq> CHR ''-''"
    using Wd Wn by (cases W) auto
  have mag: "int (fromDigits W * 10 ^ 18 + fromDigits P) = \<bar>v\<bar>"
    by (simp add: Pv W_def fromDigits_toString a_def)
  show ?thesis
  proof (cases "v < 0")
    case True
    then have "formatUnits v 18 = CHR ''-'' # W @ ''.'' @ F"
      by (simp add: fmt)
    then have "amount_of (formatUnits v 18) = - \<bar>v\<bar>"
      by (simp only: amount_of_parts(2) [OF nodot Wn hdW] FP mag)
    with True show ?thesis by simp
  next
    case False
    then have "formatUnits v 18 = W @ ''.'' @ F"
      by (simp add: fmt)
    then have "amount_of (formatUnits v 18) = \<bar>v\<bar>"
      by (simp only: amount_of_parts(1) [OF nodot Wn hdW] FP mag)
    with False show ?thesis by simp
  qed
qed

section \<open>The stages before rendering\<close>

text \<open>The quantities named above are what the call computes in its local variables.\<close>

lemma locals_of_call:
  assumes "veTotalSupply ch \<noteq> 0"
  shows "\<exists>votePct.
           votePct_loop (veTotalSupply ch) accounts (drop 2 (optimal_response ch accounts)) [] 0
             = Inr (votePct, totalBalance_of ch accounts)
           \<and> (\<forall>a \<in> set accounts. dict_get votePct a = Inr (votePct_of ch a))
           \<and> (accounts \<noteq> [] \<longrightarrow>
                 reduce_add (dict_values votePct) = Inr (totalPct_of ch accounts))"
proof -
  let ?vp = "assign_all (votePct_of ch) accounts []"
  have eq: "votePct_of ch = (\<lambda>a. veBalanceOf ch a sdiv veTotalSupply ch)"
    by (simp add: fun_eq_iff votePct_of_def)
  have loop: "votePct_loop (veTotalSupply ch) accounts
      (drop 2 (optimal_response ch accounts)) [] 0 = Inr (?vp, totalBalance_of ch accounts)"
    using assms by (simp add: optimal_response_def votePct_loop_eq totalBalance_of_def eq)
  have get: "\<forall>a \<in> set accounts. dict_get ?vp a = Inr (votePct_of ch a)"
    by (simp add: dict_get_def map_of_assign_all)
  have total: "reduce_add (dict_values ?vp) = Inr (totalPct_of ch accounts)"
    if "accounts \<noteq> []"
  proof -
    from that have "set (map fst ?vp) \<noteq> {}"
      by (simp add: keys_assign_all del: set_map)
    then have "dict_values ?vp \<noteq> []"
      by (auto simp: dict_values_def)
    then have "reduce_add (dict_values ?vp) = Inr (sum_list (dict_values ?vp))"
      by (rule reduce_add_sum)
    then show ?thesis
      by (simp add: dict_values_def sum_assign_all totalPct_of_def)
  qed
  from loop get total show ?thesis by blast
qed

lemma fromEntries_distinct:
  assumes "distinct (map fst ps)"
  shows "fromEntries ps = ps"
proof -
  have "distinct (map fst (d @ ps)) \<Longrightarrow> foldl (\<lambda>d (k, v). dict_set d k v) d ps = d @ ps" for d
  proof (induction ps arbitrary: d)
    case Nil
    then show ?case by simp
  next
    case (Cons p ps)
    obtain k v where p: "p = (k, v)" by (cases p)
    from Cons.prems have "k \<notin> set (map fst d)" by (auto simp: p)
    then have "dict_set d k v = d @ [(k, v)]" by (rule dict_set_fresh)
    moreover from Cons.prems have "distinct (map fst ((d @ [(k, v)]) @ ps))" by (simp add: p)
    ultimately show ?case using Cons.IH [of "d @ [(k, v)]"] by (simp add: p)
  qed
  from this [of "[]"] assms show ?thesis by (simp add: fromEntries_def)
qed

lemma formatEntries_distinct:
  assumes "distinct (map fst d)"
  shows "formatEntries d = map (\<lambda>(k, v). (k, formatUnits v 18)) d"
proof -
  have "map fst (map (\<lambda>(k, v). (k, formatUnits v 18)) d) = map fst d"
    by (induction d) auto
  with assms have "distinct (map fst (map (\<lambda>(k, v). (k, formatUnits v 18)) d))"
    by (simp only:)
  then show ?thesis
    unfolding formatEntries_def by (rule fromEntries_distinct)
qed

lemma amounts_formatEntries:
  assumes "distinct (map fst d)"
  shows "amounts (formatEntries d) = d" and "map fst (formatEntries d) = map fst d"
proof -
  show "amounts (formatEntries d) = d"
    unfolding formatEntries_distinct [OF assms] amounts_def
    by (induction d) (auto simp: amount_of_formatUnits)
  show "map fst (formatEntries d) = map fst d"
    unfolding formatEntries_distinct [OF assms] by (induction d) auto
qed

lemma gaugeOptimalDeposits_rendered:
  assumes "gaugeOptimalDepositsBN ch accounts = Inr d" and "distinct (map fst d)"
  shows "\<exists>r. gaugeOptimalDeposits ch (map JString accounts) = Inr r
           \<and> amounts r = d \<and> map fst r = map fst d"
  using assms by (simp add: gaugeOptimalDeposits_strings amounts_formatEntries)

lemma gaugeMaxBoostedDeposit_rendered:
  assumes "gaugeMaxBoostedDepositBN ch accounts = Inr d" and "distinct (map fst d)"
  shows "\<exists>r. gaugeMaxBoostedDeposit ch (map JString accounts) = Inr r
           \<and> amounts r = d \<and> map fst r = map fst d"
  using assms by (simp add: gaugeMaxBoostedDeposit_strings amounts_formatEntries)

lemma gaugeMaxBoostedDepositBN_zero_supply:
  assumes "veTotalSupply ch = 0" and "accounts \<noteq> []"
  shows "gaugeMaxBoostedDepositBN ch accounts = Inl NumericFault"
  using assms
  by (cases accounts)
    (simp_all add: gaugeMaxBoostedDepositBN_def maxBoosted_response_def bn_div_def)

lemma undersubscribed_BN:
  assumes "distinct accounts"
      and "veTotalSupply ch \<noteq> 0" and "gaugeTotalSupply ch \<noteq> 0"
      and "totalBalance_of ch accounts sdiv gaugeTotalSupply ch < totalPct_of ch accounts"
  shows "gaugeOptimalDepositsBN ch accounts
         = Inr (zip accounts
             (spec_undersubscribed (map (\<lambda>a. votePct_of ch a * gaugeTotalSupply ch) accounts)
                (totalBalance_of ch accounts)))"
proof -
  from assms(4) have "accounts \<noteq> []"
    by (auto simp: totalBalance_of_def totalPct_of_def)
  with assms show ?thesis
    by (simp add: gaugeOptimalDepositsBN_branches under_branch_result)
qed

lemma oversubscribed_BN:
  assumes "accounts \<noteq> []"
      and "veTotalSupply ch \<noteq> 0" and "gaugeTotalSupply ch \<noteq> 0"
      and "\<not> totalBalance_of ch accounts sdiv gaugeTotalSupply ch < totalPct_of ch accounts"
  shows "\<exists>d. gaugeOptimalDepositsBN ch accounts = Inr d
          \<and> set (map fst d) = set accounts \<and> distinct (map fst d)
          \<and> map fst d = map fst (assign_all (\<lambda>a. 0::int) accounts [])
          \<and> (\<forall>a \<in> set accounts. map_of d a =
               Some (share_of ch accounts a +
                 (if a = hd accounts
                  then totalBalance_of ch accounts - (\<Sum>b\<in>set accounts. share_of ch accounts b)
                  else 0)))
          \<and> sum_list (dict_values d) = totalBalance_of ch accounts"
proof -
  from over_branch_result [OF assms(1), of ch] obtain d where
    d: "over_branch (assign_all (votePct_of ch) accounts []) (totalPct_of ch accounts)
             (totalBalance_of ch accounts) accounts (assign_all (\<lambda>a. 0) accounts []) = Inr d"
    and rest: "set (map fst d) = set accounts" "distinct (map fst d)"
      "\<forall>a \<in> set accounts. map_of d a =
               Some (share_of ch accounts a +
                 (if a = hd accounts
                  then totalBalance_of ch accounts - (\<Sum>b\<in>set accounts. share_of ch accounts b)
                  else 0))"
      "sum_list (dict_values d) = totalBalance_of ch accounts"
    by blast
  from assms d have "gaugeOptimalDepositsBN ch accounts = Inr d"
    by (simp add: gaugeOptimalDepositsBN_branches)
  with rest over_branch_keys [OF d] show ?thesis by blast
qed

lemma conserve_BN:
  assumes "accounts \<noteq> []" and "distinct accounts"
      and "veTotalSupply ch \<noteq> 0" and "0 < gaugeTotalSupply ch"
  shows "\<exists>d. gaugeOptimalDepositsBN ch accounts = Inr d \<and> map fst d = accounts
           \<and> sum_list (dict_values d) = totalBalance_of ch accounts"
proof (cases "totalBalance_of ch accounts sdiv gaugeTotalSupply ch < totalPct_of ch accounts")
  case True
  let ?caps = "map (\<lambda>a. votePct_of ch a * gaugeTotalSupply ch) accounts"
  let ?given = "spec_undersubscribed ?caps (totalBalance_of ch accounts)"
  from assms True have res: "gaugeOptimalDepositsBN ch accounts = Inr (zip accounts ?given)"
    by (simp add: undersubscribed_BN)
  have "sum_list ?caps = totalPct_of ch accounts * gaugeTotalSupply ch"
    using assms(2)
    by (simp add: totalPct_of_def sum_list_distinct_conv_sum_set sum_distrib_right)
  with True assms(4) have "totalBalance_of ch accounts \<le> sum_list ?caps"
    by (simp add: sdiv_less_imp_le_mult)
  with assms(1) have "sum_list ?given = totalBalance_of ch accounts"
    by (intro sum_spec_undersubscribed) simp_all
  then have "sum_list (dict_values (zip accounts ?given)) = totalBalance_of ch accounts"
    by (simp add: dict_values_def)
  moreover have "map fst (zip accounts ?given) = accounts"
    by simp
  ultimately show ?thesis using res by blast
next
  case False
  with assms oversubscribed_BN [of accounts ch] obtain d
    where d: "gaugeOptimalDepositsBN ch accounts = Inr d"
      and k: "map fst d = map fst (assign_all (\<lambda>a. 0::int) accounts [])"
      and s: "sum_list (dict_values d) = totalBalance_of ch accounts"
    by auto
  from k assms(2) have "map fst d = accounts"
    by (simp add: assign_all_fresh comp_def)
  with d s show ?thesis by simp
qed

section \<open>Worked values\<close>

lemma replicate_numeral: "replicate (numeral v) x = x # replicate (numeral v - 1) x"
  by (simp add: numeral_eq_Suc)

lemma formatUnits_small:
  "formatUnits 9 18 = ''0.000000000000000009''"
  "formatUnits (- 1) 18 = ''-0.000000000000000001''"
  "formatUnits 200 18 = ''0.0000000000000002''"
  "formatUnits 10 18 = ''0.00000000000000001''"
  unfolding formatUnits_def Let_def
  by (simp_all add: toString.simps padStart_def stripZeros_def digit_def replicate_numeral)

lemma amount_of_examples:
  "amount_of ''0.000000000000000009'' = 9"
  "amount_of ''-0.000000000000000001'' = - 1"
  "amount_of ''0.0000000000000002'' = 200"
  "amount_of ''0.0'' = 0"
  "amount_of ''200.0'' = 200000000000000000000"
  "amount_of ''0.00000000000000001'' = 10"
  using amount_of_formatUnits [of 9] amount_of_formatUnits [of "- 1"]
    amount_of_formatUnits [of 200] amount_of_formatUnits [of 0]
    amount_of_formatUnits [of 200000000000000000000] amount_of_formatUnits [of 10]
  by (simp_all only: formatUnits_small formatUnits_examples)

text \<open>
  The specification's example for the first branch (shares 0.6 and 0.4, a gauge supply
  of 1000, balances of 100 each): both shares truncate to zero, so the test of line 213
  fails and it is the second branch that gives the first account 200 and the second
  nothing.
\<close>

lemma scenario_gauge_supply_1000:
  "\<not> totalBalance_of (chain_of 10 1000 [(''A'', 6, 100, 0), (''B'', 4, 60, 40)]) [''A'', ''B'']
        sdiv gaugeTotalSupply (chain_of 10 1000 [(''A'', 6, 100, 0), (''B'', 4, 60, 40)])
      < totalPct_of (chain_of 10 1000 [(''A'', 6, 100, 0), (''B'', 4, 60, 40)]) [''A'', ''B'']"
  "gaugeOptimalDeposits (chain_of 10 1000 [(''A'', 6, 100, 0), (''B'', 4, 60, 40)])
     [JString ''A'', JString ''B''] = Inr [(''A'', ''0.0000000000000002''), (''B'', ''0.0'')]"
  by (simp_all add: gaugeOptimalDeposits_def unwrap_accounts_def
      gaugeOptimalDepositsBN_def optimal_response_def chain_of_def bn_div_def
      dict_get_def dict_values_def fromEntries_def signed_divide_int_def over_branch_def
      add_remainder_def formatEntries_def formatUnits_small formatUnits_examples
      totalBalance_of_def totalPct_of_def votePct_of_def)

lemma scenario_BN:
  assumes "A \<noteq> B" and "0 < veTotalSupply ch"
      and "10 * veBalanceOf ch A = 6 * veTotalSupply ch"
      and "10 * veBalanceOf ch B = 4 * veTotalSupply ch"
      and "0 < u" and "gaugeTotalSupply ch = 100 * u"
      and "lpBalanceOf ch A + gaugeBalanceOf ch A = 100 * u"
      and "lpBalanceOf ch B + gaugeBalanceOf ch B = 100 * u"
  shows "\<not> totalBalance_of ch [A, B] sdiv gaugeTotalSupply ch < totalPct_of ch [A, B]"
    and "totalPct_of ch [A, B] = 0"
    and "gaugeOptimalDepositsBN ch [A, B] = Inr [(A, 200 * u), (B, 0)]"
proof -
  have small: "0 \<le> v \<and> v < t \<Longrightarrow> v sdiv t = 0" for v t :: int
    by (simp add: signed_divide_int_def)
  from assms(2,3) have "votePct_of ch A = 0"
    unfolding votePct_of_def by (intro small) simp
  moreover from assms(2,4) have "votePct_of ch B = 0"
    unfolding votePct_of_def by (intro small) simp
  ultimately have vp: "votePct_of ch A = 0" "votePct_of ch B = 0" by simp_all
  with assms(1) show tp: "totalPct_of ch [A, B] = 0"
    by (simp add: totalPct_of_def)
  from assms(7,8) have tb: "totalBalance_of ch [A, B] = 200 * u"
    by (simp add: totalBalance_of_def)
  from assms(5) have quota: "(200 * u) sdiv (100 * u) = 2"
    by (simp add: signed_divide_int_def sgn_mult abs_mult)
  show br: "\<not> totalBalance_of ch [A, B] sdiv gaugeTotalSupply ch < totalPct_of ch [A, B]"
    unfolding tp tb assms(6) quota by simp
  from assms(2,5,6) have nz: "[A, B] \<noteq> []" "veTotalSupply ch \<noteq> 0" "gaugeTotalSupply ch \<noteq> 0"
    by simp_all
  show "gaugeOptimalDepositsBN ch [A, B] = Inr [(A, 200 * u), (B, 0)]"
    unfolding gaugeOptimalDepositsBN_branches [OF nz] using br assms(1)
    by (simp add: tp tb vp over_branch_def add_remainder_def dict_get_def dict_values_def)
qed

section \<open>The first branch\<close>

text \<open>
  Claim C4. In the first (undersubscribed) branch, the one taken when the truncated
  quotient of \<open>totalBalance\<close> by the gauge supply is less than \<open>totalPct\<close>, the
  accounts are served in input order: each is given the minimum of its share times the
  gauge supply and of the remaining balance, the remaining balance is decremented by
  that amount, and once it has reached zero every later account is given zero. The
  accounts are pairwise distinct, so that each has one entry and one turn; the amounts
  are those denoted by the strings returned.
\<close>

theorem undersubscribed_branch:
  assumes "distinct accounts"
      and "veTotalSupply ch \<noteq> 0" and "gaugeTotalSupply ch \<noteq> 0"
      and "totalBalance_of ch accounts sdiv gaugeTotalSupply ch < totalPct_of ch accounts"
  shows "\<exists>r. gaugeOptimalDeposits ch (map JString accounts) = Inr r
           \<and> amounts r =
               zip accounts
                 (spec_undersubscribed
                    (map (\<lambda>a. votePct_of ch a * gaugeTotalSupply ch) accounts)
                    (totalBalance_of ch accounts))"
proof -
  let ?d = "zip accounts
      (spec_undersubscribed (map (\<lambda>a. votePct_of ch a * gaugeTotalSupply ch) accounts)
         (totalBalance_of ch accounts))"
  have "gaugeOptimalDepositsBN ch accounts = Inr ?d"
    using assms by (rule undersubscribed_BN)
  moreover from assms(1) have "distinct (map fst ?d)"
    by simp
  ultimately show ?thesis
    using gaugeOptimalDeposits_rendered by blast
qed

theorem undersubscribed_branch_witness:
  "\<exists>r. gaugeOptimalDeposits
          (chain_of 5 1000 [(''A'', 0, 100, 0), (''B'', 5, 20, 30), (''C'', 0, 50, 0)])
          [JString ''A'', JString ''B'', JString ''C''] = Inr r
      \<and> amounts r = [(''A'', 0), (''B'', 200), (''C'', 0)]"
proof -
  let ?ch = "chain_of 5 1000 [(''A'', 0, 100, 0), (''B'', 5, 20, 30), (''C'', 0, 50, 0)]"
  let ?accounts = "[''A'', ''B'', ''C'']"
  have d: "distinct ?accounts" by simp
  have v: "veTotalSupply ?ch \<noteq> 0" by (simp add: chain_of_def)
  have g: "gaugeTotalSupply ?ch \<noteq> 0" by (simp add: chain_of_def)
  have b: "totalBalance_of ?ch ?accounts sdiv gaugeTotalSupply ?ch < totalPct_of ?ch ?accounts"
    by (simp add: chain_of_def totalBalance_of_def totalPct_of_def votePct_of_def
        signed_divide_int_def)
  show ?thesis
    using undersubscribed_branch [OF d v g b]
    by (simp add: chain_of_def totalBalance_of_def votePct_of_def signed_divide_int_def)
qed

section \<open>The second branch\<close>

text \<open>
  Claim C2. In the second (oversubscribed or balanced) branch, the one taken when the
  truncated quotient of \<open>totalBalance\<close> by the gauge supply is not less than
  \<open>totalPct\<close>, every account is first allocated its share: the truncated quotient of
  \<open>votePct[acct]\<close> by \<open>totalPct\<close>, times \<open>totalBalance\<close>, if \<open>totalPct\<close> is
  negative, and the initial zero otherwise. Then \<open>totalBalance\<close> minus the sum of the
  shares is added to the entry of the first account of the list, so that the amounts
  of the returned mapping sum to \<open>totalBalance\<close>. The mapping has one entry for each
  account that occurs in the list.
\<close>

theorem oversubscribed_branch:
  assumes "accounts \<noteq> []"
      and "veTotalSupply ch \<noteq> 0" and "gaugeTotalSupply ch \<noteq> 0"
      and "\<not> totalBalance_of ch accounts sdiv gaugeTotalSupply ch < totalPct_of ch accounts"
  shows "\<exists>r. gaugeOptimalDeposits ch (map JString accounts) = Inr r
          \<and> set (map fst r) = set accounts \<and> distinct (map fst r)
          \<and> (\<forall>a \<in> set accounts. map_of (amounts r) a =
               Some (share_of ch accounts a +
                 (if a = hd accounts
                  then totalBalance_of ch accounts - (\<Sum>b\<in>set accounts. share_of ch accounts b)
                  else 0)))
          \<and> sum_list (dict_values (amounts r)) = totalBalance_of ch accounts"
proof -
  from oversubscribed_BN [OF assms] obtain d
    where d: "gaugeOptimalDepositsBN ch accounts = Inr d"
      and k: "set (map fst d) = set accounts" "distinct (map fst d)"
      and l: "\<forall>a \<in> set accounts. map_of d a =
               Some (share_of ch accounts a +
                 (if a = hd accounts
                  then totalBalance_of ch accounts - (\<Sum>b\<in>set accounts. share_of ch accounts b)
                  else 0))"
      and s: "sum_list (dict_values d) = totalBalance_of ch accounts"
    by blast
  from gaugeOptimalDeposits_rendered [OF d k(2)] obtain r
    where r: "gaugeOptimalDeposits ch (map JString accounts) = Inr r"
      and a: "amounts r = d" and f: "map fst r = map fst d"
    by blast
  note r
  moreover from k f have "set (map fst r) = set accounts" and "distinct (map fst r)"
    by simp_all
  moreover from l have "\<forall>a \<in> set accounts. map_of (amounts r) a =
               Some (share_of ch accounts a +
                 (if a = hd accounts
                  then totalBalance_of ch accounts - (\<Sum>b\<in>set accounts. share_of ch accounts b)
                  else 0))"
    unfolding a .
  moreover from s have "sum_list (dict_values (amounts r)) = totalBalance_of ch accounts"
    unfolding a .
  ultimately show ?thesis
    by (intro exI [of _ r] conjI)
qed

theorem oversubscribed_branch_witness:
  "\<exists>r. gaugeOptimalDeposits
          (chain_of 1 5 [(''A'', - 5, 4, 0), (''B'', 3, 3, 0), (''C'', - 1, 1, 2)])
          [JString ''A'', JString ''B'', JString ''C''] = Inr r
      \<and> map_of (amounts r) ''A'' = Some 20 \<and> map_of (amounts r) ''B'' = Some (- 10)
      \<and> map_of (amounts r) ''C'' = Some 0
      \<and> sum_list (dict_values (amounts r)) = 10"
proof -
  let ?ch = "chain_of 1 5 [(''A'', - 5, 4, 0), (''B'', 3, 3, 0), (''C'', - 1, 1, 2)]"
  let ?accounts = "[''A'', ''B'', ''C'']"
  have n: "?accounts \<noteq> []" by simp
  have v: "veTotalSupply ?ch \<noteq> 0" by (simp add: chain_of_def)
  have g: "gaugeTotalSupply ?ch \<noteq> 0" by (simp add: chain_of_def)
  have tb: "totalBalance_of ?ch ?accounts = 10"
    by (simp add: chain_of_def totalBalance_of_def)
  have tp: "totalPct_of ?ch ?accounts = - 3"
    by (simp add: chain_of_def totalPct_of_def votePct_of_def signed_divide_int_def)
  have b: "\<not> totalBalance_of ?ch ?accounts sdiv gaugeTotalSupply ?ch < totalPct_of ?ch ?accounts"
    unfolding tb tp by (simp add: chain_of_def signed_divide_int_def)
  have sh: "share_of ?ch ?accounts ''A'' = 10" "share_of ?ch ?accounts ''B'' = - 10"
    "share_of ?ch ?accounts ''C'' = 0"
    unfolding share_of_def tb tp by (simp_all add: chain_of_def votePct_of_def signed_divide_int_def)
  from oversubscribed_branch [OF n v g b] obtain r
    where r: "gaugeOptimalDeposits ?ch (map JString ?accounts) = Inr r"
      and l: "\<forall>a \<in> set ?accounts. map_of (amounts r) a =
               Some (share_of ?ch ?accounts a +
                 (if a = hd ?accounts
                  then totalBalance_of ?ch ?accounts - (\<Sum>b\<in>set ?accounts. share_of ?ch ?accounts b)
                  else 0))"
      and s: "sum_list (dict_values (amounts r)) = totalBalance_of ?ch ?accounts"
    by blast
  from l have "map_of (amounts r) ''A'' = Some 20 \<and> map_of (amounts r) ''B'' = Some (- 10)
      \<and> map_of (amounts r) ''C'' = Some 0"
    unfolding tb by (simp add: sh)
  with r s show ?thesis unfolding tb by auto
qed

section \<open>Conservation\<close>

text \<open>
  Claim C1, as stated, asks for every list of accounts and all non-zero supplies that
  the returned amounts sum to \<open>totalBalance\<close>. Four inputs show that this fails. With
  no account the call throws. With an account listed twice, the second visit of the
  first branch overwrites what the first visit gave: here \<open>A\<close> is given 10 and then
  9, the whole balance of 19 is consumed, and the mapping returned holds 9. An account
  listed twice is also counted twice in \<open>totalBalance\<close>: an account that holds 5 and
  is listed twice is allotted 10, so the amounts do not sum to what the accounts hold.
  With a negative gauge supply the first branch gives a negative cap and ends with
  balance left over.
\<close>

theorem optimal_deposits_conserve_counterexample:
  "gaugeOptimalDeposits (chain_of 1 10 [(''A'', 1, 9, 0), (''B'', 1, 1, 0)]) []
     = Inl TypeError
   \<and> gaugeOptimalDeposits (chain_of 1 10 [(''A'', 1, 9, 0), (''B'', 1, 1, 0)])
       [JString ''A'', JString ''A'', JString ''B'']
     = Inr [(''A'', ''0.000000000000000009''), (''B'', ''0.0'')]
   \<and> amounts [(''A'', ''0.000000000000000009''), (''B'', ''0.0'')] = [(''A'', 9), (''B'', 0)]
   \<and> sum_list (dict_values [(''A'', 9), (''B'', 0)])
       \<noteq> totalBalance_of (chain_of 1 10 [(''A'', 1, 9, 0), (''B'', 1, 1, 0)])
            [''A'', ''A'', ''B'']
   \<and> gaugeOptimalDeposits (chain_of 5 1000 [(''A'', 0, 5, 0)]) [JString ''A'', JString ''A'']
     = Inr [(''A'', ''0.00000000000000001'')]
   \<and> amounts [(''A'', ''0.00000000000000001'')] = [(''A'', 10)]
   \<and> sum_list (dict_values [(''A'', 10)])
       \<noteq> lpBalanceOf (chain_of 5 1000 [(''A'', 0, 5, 0)]) ''A''
          + gaugeBalanceOf (chain_of 5 1000 [(''A'', 0, 5, 0)]) ''A''
   \<and> gaugeOptimalDeposits (chain_of 1 (- 1) [(''A'', 1, 5, 0)]) [JString ''A'']
     = Inr [(''A'', ''-0.000000000000000001'')]
   \<and> amounts [(''A'', ''-0.000000000000000001'')] = [(''A'', - 1)]
   \<and> sum_list (dict_values [(''A'', - 1)])
       \<noteq> totalBalance_of (chain_of 1 (- 1) [(''A'', 1, 5, 0)]) [''A'']"
  by (simp add: gaugeOptimalDeposits_def unwrap_accounts_def
      gaugeOptimalDepositsBN_def optimal_response_def chain_of_def bn_div_def
      dict_get_def dict_values_def fromEntries_def signed_divide_int_def totalBalance_of_def
      over_branch_def add_remainder_def
      formatEntries_def formatUnits_small formatUnits_examples amounts_def amount_of_examples)

text \<open>
  Claim C1, amended. For every non-empty list of pairwise distinct accounts, a
  non-zero voting-escrow supply and a positive gauge supply, the call returns a mapping
  with one entry for each account, in input order, and the amounts sum exactly to
  \<open>totalBalance\<close>, the sum over the accounts of LP-token balance plus gauge balance.
\<close>

theorem optimal_deposits_conserve:
  assumes "accounts \<noteq> []" and "distinct accounts"
      and "veTotalSupply ch \<noteq> 0" and "0 < gaugeTotalSupply ch"
  shows "\<exists>r. gaugeOptimalDeposits ch (map JString accounts) = Inr r \<and> map fst r = accounts
           \<and> sum_list (dict_values (amounts r)) = totalBalance_of ch accounts"
proof -
  from conserve_BN [OF assms] obtain d
    where d: "gaugeOptimalDepositsBN ch accounts = Inr d" and k: "map fst d = accounts"
      and s: "sum_list (dict_values d) = totalBalance_of ch accounts"
    by blast
  from k assms(2) have "distinct (map fst d)" by simp
  from gaugeOptimalDeposits_rendered [OF d this] k s show ?thesis
    by auto
qed

theorem optimal_deposits_conserve_witness:
  "\<exists>r. gaugeOptimalDeposits
          (chain_of 5 1000 [(''A'', 0, 100, 0), (''B'', 5, 20, 30), (''C'', 0, 50, 0)])
          [JString ''A'', JString ''B'', JString ''C''] = Inr r
      \<and> map fst r = [''A'', ''B'', ''C'']
      \<and> sum_list (dict_values (amounts r)) = 200"
proof -
  let ?ch = "chain_of 5 1000 [(''A'', 0, 100, 0), (''B'', 5, 20, 30), (''C'', 0, 50, 0)]"
  let ?accounts = "[''A'', ''B'', ''C'']"
  have n: "?accounts \<noteq> []" by simp
  have d: "distinct ?accounts" by simp
  have v: "veTotalSupply ?ch \<noteq> 0" by (simp add: chain_of_def)
  have g: "0 < gaugeTotalSupply ?ch" by (simp add: chain_of_def)
  have t: "totalBalance_of ?ch ?accounts = 200"
    by (simp add: chain_of_def totalBalance_of_def)
  show ?thesis
    using optimal_deposits_conserve [OF n d v g] unfolding t by simp
qed

section \<open>The scenario with shares 0.6 and 0.4\<close>

text \<open>
  Claim C3, as stated, has the call with two accounts of vote-power fractions 0.6 and
  0.4, a gauge supply of 100 and balances of 100 per account return 120 for the first
  and 80 for the second. The code returns 200 and 0, with the values in raw units
  (rendered \<open>0.0000000000000002\<close> and \<open>0.0\<close>) and in units of \<open>10 ^ 18\<close>
  (rendered \<open>200.0\<close> and \<open>0.0\<close>) alike.
\<close>

theorem scenario_oversubscribed_counterexample:
  "gaugeOptimalDeposits (chain_of 10 100 [(''A'', 6, 100, 0), (''B'', 4, 60, 40)])
     [JString ''A'', JString ''B''] = Inr [(''A'', ''0.0000000000000002''), (''B'', ''0.0'')]
   \<and> amounts [(''A'', ''0.0000000000000002''), (''B'', ''0.0'')] = [(''A'', 200), (''B'', 0)]
   \<and> gaugeOptimalDeposits
       (chain_of (10 * 10 ^ 18) (100 * 10 ^ 18)
          [(''A'', 6 * 10 ^ 18, 100 * 10 ^ 18, 0), (''B'', 4 * 10 ^ 18, 60 * 10 ^ 18, 40 * 10 ^ 18)])
       [JString ''A'', JString ''B''] = Inr [(''A'', ''200.0''), (''B'', ''0.0'')]
   \<and> amounts [(''A'', ''200.0''), (''B'', ''0.0'')] = [(''A'', 200 * 10 ^ 18), (''B'', 0)]"
  by (simp add: gaugeOptimalDeposits_def unwrap_accounts_def
      gaugeOptimalDepositsBN_def optimal_response_def chain_of_def bn_div_def
      dict_get_def dict_values_def fromEntries_def signed_divide_int_def over_branch_def
      add_remainder_def formatEntries_def formatUnits_small formatUnits_examples
      amounts_def amount_of_examples)

text \<open>
  Claim C3, amended. For two distinct accounts whose voting-escrow balances are 0.6 and
  0.4 of the voting-escrow supply, a gauge supply of 100 units and balances of 100 units
  per account, the second branch is taken (the quotient 2 is not less than
  \<open>totalPct\<close>); both shares truncate to zero, so \<open>totalPct\<close> is zero, not negative,
  and no proportional allocation is made; the first account receives the whole 200
  units and the second receives zero, which sums to 200 exactly.
\<close>

theorem scenario_oversubscribed:
  assumes "A \<noteq> B" and "0 < veTotalSupply ch"
      and "10 * veBalanceOf ch A = 6 * veTotalSupply ch"
      and "10 * veBalanceOf ch B = 4 * veTotalSupply ch"
      and "0 < u" and "gaugeTotalSupply ch = 100 * u"
      and "lpBalanceOf ch A + gaugeBalanceOf ch A = 100 * u"
      and "lpBalanceOf ch B + gaugeBalanceOf ch B = 100 * u"
  shows "\<not> totalBalance_of ch [A, B] sdiv gaugeTotalSupply ch < totalPct_of ch [A, B]
         \<and> totalPct_of ch [A, B] = 0
         \<and> (\<exists>r. gaugeOptimalDeposits ch [JString A, JString B] = Inr r
                \<and> amounts r = [(A, 200 * u), (B, 0)])"
proof -
  note bn = scenario_BN [OF assms]
  from assms(1) have "distinct (map fst [(A, 200 * u), (B, 0::int)])"
    by simp
  from gaugeOptimalDeposits_rendered [OF bn(3) this]
  have "\<exists>r. gaugeOptimalDeposits ch [JString A, JString B] = Inr r
           \<and> amounts r = [(A, 200 * u), (B, 0)]"
    by auto
  with bn(1,2) show ?thesis by blast
qed

theorem scenario_oversubscribed_witness:
  "\<exists>r. gaugeOptimalDeposits
     (chain_of (10 * 10 ^ 18) (100 * 10 ^ 18)
        [(''A'', 6 * 10 ^ 18, 100 * 10 ^ 18, 0), (''B'', 4 * 10 ^ 18, 60 * 10 ^ 18, 40 * 10 ^ 18)])
     [JString ''A'', JString ''B''] = Inr r
    \<and> amounts r = [(''A'', 200 * 10 ^ 18), (''B'', 0)]"
proof -
  let ?ch = "chain_of (10 * 10 ^ 18) (100 * 10 ^ 18)
        [(''A'', 6 * 10 ^ 18, 100 * 10 ^ 18, 0), (''B'', 4 * 10 ^ 18, 60 * 10 ^ 18, 40 * 10 ^ 18)]"
  have h: "''A'' \<noteq> ''B''" "0 < veTotalSupply ?ch"
    "10 * veBalanceOf ?ch ''A'' = 6 * veTotalSupply ?ch"
    "10 * veBalanceOf ?ch ''B'' = 4 * veTotalSupply ?ch"
    "(0::int) < 10 ^ 18" "gaugeTotalSupply ?ch = 100 * 10 ^ 18"
    "lpBalanceOf ?ch ''A'' + gaugeBalanceOf ?ch ''A'' = 100 * 10 ^ 18"
    "lpBalanceOf ?ch ''B'' + gaugeBalanceOf ?ch ''B'' = 100 * 10 ^ 18"
    by (simp_all add: chain_of_def)
  from scenario_oversubscribed [OF h] show ?thesis by (elim conjE)
qed

section \<open>Failures\<close>

text \<open>
  Claim C5. When the gauge total supply is zero the call fails and never returns a
  mapping, whatever the arguments; with at least one account the failure is the numeric
  fault (division by zero) of an unguarded \<open>div\<close>, and with no account it is the
  \<open>TypeError\<close> of the empty \<open>reduce\<close>, which comes first.
\<close>

theorem zero_gauge_supply_fails:
  assumes "gaugeTotalSupply ch = 0"
  shows "(\<exists>e. gaugeOptimalDeposits ch args = Inl e)
         \<and> gaugeOptimalDeposits ch (map JString accounts)
             = Inl (if accounts = [] then TypeError else NumericFault)"
proof -
  have "\<exists>e. gaugeOptimalDeposits ch args = Inl e"
    using assms
    by (auto simp: gaugeOptimalDeposits_def gaugeOptimalDepositsBN_zero_supply split: sum.splits)
  moreover have "gaugeOptimalDeposits ch (map JString accounts)
      = Inl (if accounts = [] then TypeError else NumericFault)"
    using assms by (simp add: gaugeOptimalDeposits_strings gaugeOptimalDepositsBN_zero_supply)
  ultimately show ?thesis by blast
qed

theorem zero_gauge_supply_fails_witness:
  "(\<exists>e. gaugeOptimalDeposits (chain_of 10 0 [(''A'', 6, 100, 0), (''B'', 4, 60, 40)])
          [JArray [''A'', ''B'']] = Inl e)
   \<and> gaugeOptimalDeposits (chain_of 10 0 [(''A'', 6, 100, 0), (''B'', 4, 60, 40)])
        (map JString [''A'', ''B'']) = Inl NumericFault"
proof -
  have z: "gaugeTotalSupply (chain_of 10 0 [(''A'', 6, 100, 0), (''B'', 4, 60, 40)]) = 0"
    by (simp add: chain_of_def)
  show ?thesis
    using zero_gauge_supply_fails [OF z, of "[JArray [''A'', ''B'']]" "[''A'', ''B'']"]
    by simp
qed

text \<open>
  Claim C6 expects an empty mapping from a call with no account. The code throws
  instead, in both calling forms: \<open>votePct\<close> is empty, and \<open>reduce\<close> without
  an initial value throws a \<open>TypeError\<close> on the empty array of its values (line 211).
  The sibling \<open>gaugeMaxBoostedDeposit\<close> returns the empty mapping on the same input
  (\<open>gaugeMaxBoostedDeposit_no_accounts\<close>).
\<close>

theorem no_accounts_throws:
  "gaugeOptimalDeposits ch [] = Inl TypeError
   \<and> gaugeOptimalDeposits ch [JArray []] = Inl TypeError"
  by (simp add: gaugeOptimalDeposits_def unwrap_accounts_def gaugeOptimalDepositsBN_no_accounts)

section \<open>The boosted deposit cap\<close>

text \<open>
  Claim C7, as stated, gives an account with a voting-escrow balance of zero the cap
  zero regardless of the supplies. With a voting-escrow supply of zero this fails: line
  172 divides by the supply without a guard, so the call for such an account throws
  the numeric fault (division by zero) and returns no cap.
\<close>

theorem boosted_deposit_cap_counterexample:
  "veBalanceOf (chain_of 0 1000 [(''A'', 0, 5, 0)]) ''A'' = 0
   \<and> gaugeMaxBoostedDeposit (chain_of 0 1000 [(''A'', 0, 5, 0)]) [JString ''A'']
       = Inl NumericFault
   \<and> gaugeMaxBoostedDeposit (chain_of 0 1000 [(''A'', 0, 5, 0)]) [JString ''A'']
       \<noteq> Inr [(''A'', ''0.0'')]"
  by (simp add: gaugeMaxBoostedDeposit_def unwrap_accounts_def gaugeMaxBoostedDepositBN_def
      maxBoosted_response_def chain_of_def bn_div_def)

text \<open>
  Claim C7, amended. With a non-zero voting-escrow supply, \<open>gaugeMaxBoostedDeposit\<close>
  returns a mapping with one entry for each account named, and the amount of an account
  is the truncated quotient of gauge supply times voting-escrow balance by the
  voting-escrow supply. The LP-token and gauge balances have no influence, and an
  account with a voting-escrow balance of zero has the cap zero whatever the gauge
  supply and the non-zero voting-escrow supply are. With a voting-escrow supply of zero
  and at least one account the call fails with the numeric fault and returns no cap
  for any account.
\<close>

theorem boosted_deposit_cap:
  "(veTotalSupply ch \<noteq> 0 \<longrightarrow>
      (\<exists>r. gaugeMaxBoostedDeposit ch (map JString accounts) = Inr r
         \<and> set (map fst r) = set accounts \<and> distinct (map fst r)
         \<and> (\<forall>a \<in> set accounts.
               map_of (amounts r) a
                 = Some ((gaugeTotalSupply ch * veBalanceOf ch a) sdiv veTotalSupply ch)
               \<and> (veBalanceOf ch a = 0 \<longrightarrow> map_of (amounts r) a = Some 0))
         \<and> gaugeMaxBoostedDeposit (ch\<lparr>lpBalanceOf := lp, gaugeBalanceOf := g\<rparr>)
               (map JString accounts) = Inr r))
   \<and> (veTotalSupply ch = 0 \<and> accounts \<noteq> [] \<longrightarrow>
        gaugeMaxBoostedDeposit ch (map JString accounts) = Inl NumericFault)"
proof (intro conjI impI)
  assume nz: "veTotalSupply ch \<noteq> 0"
  let ?d = "assign_all (\<lambda>a. (gaugeTotalSupply ch * veBalanceOf ch a) sdiv veTotalSupply ch)
              accounts []"
  let ?ch' = "ch\<lparr>lpBalanceOf := lp, gaugeBalanceOf := g\<rparr>"
  have bn: "gaugeMaxBoostedDepositBN ch accounts = Inr ?d"
    using nz by (rule gaugeMaxBoostedDepositBN_eq)
  have bn': "gaugeMaxBoostedDepositBN ?ch' accounts = Inr ?d"
    using nz gaugeMaxBoostedDepositBN_eq [of ?ch' accounts] by simp
  have dist: "distinct (map fst ?d)"
    by (simp add: distinct_assign_all)
  have r: "gaugeMaxBoostedDeposit ch (map JString accounts) = Inr (formatEntries ?d)"
    by (simp add: gaugeMaxBoostedDeposit_strings bn)
  have r': "gaugeMaxBoostedDeposit ?ch' (map JString accounts) = Inr (formatEntries ?d)"
    by (simp add: gaugeMaxBoostedDeposit_strings bn')
  have keys: "set (map fst (formatEntries ?d)) = set accounts"
    unfolding amounts_formatEntries(2) [OF dist] by (simp add: keys_assign_all del: set_map)
  have dist': "distinct (map fst (formatEntries ?d))"
    unfolding amounts_formatEntries(2) [OF dist] by (rule dist)
  have caps: "\<forall>a \<in> set accounts.
      map_of (amounts (formatEntries ?d)) a
        = Some ((gaugeTotalSupply ch * veBalanceOf ch a) sdiv veTotalSupply ch)
      \<and> (veBalanceOf ch a = 0 \<longrightarrow> map_of (amounts (formatEntries ?d)) a = Some 0)"
    unfolding amounts_formatEntries(1) [OF dist] by (simp add: map_of_assign_all)
  from r keys dist' caps r'
  show "\<exists>r. gaugeMaxBoostedDeposit ch (map JString accounts) = Inr r
         \<and> set (map fst r) = set accounts \<and> distinct (map fst r)
         \<and> (\<forall>a \<in> set accounts.
               map_of (amounts r) a
                 = Some ((gaugeTotalSupply ch * veBalanceOf ch a) sdiv veTotalSupply ch)
               \<and> (veBalanceOf ch a = 0 \<longrightarrow> map_of (amounts r) a = Some 0))
         \<and> gaugeMaxBoostedDeposit ?ch' (map JString accounts) = Inr r"
    by (intro exI [of _ "formatEntries ?d"] conjI)
next
  assume "veTotalSupply ch = 0 \<and> accounts \<noteq> []"
  then show "gaugeMaxBoostedDeposit ch (map JString accounts) = Inl NumericFault"
    by (simp add: gaugeMaxBoostedDeposit_strings gaugeMaxBoostedDepositBN_zero_supply)
qed

theorem boosted_deposit_cap_witness:
  "\<exists>r. gaugeMaxBoostedDeposit
          (chain_of 10 1005 [(''A'', 6, 100, 0), (''B'', 0, 60, 40)])
          [JString ''A'', JString ''B'', JString ''A''] = Inr r
      \<and> map_of (amounts r) ''A'' = Some 603 \<and> map_of (amounts r) ''B'' = Some 0
      \<and> gaugeMaxBoostedDeposit
          (chain_of 10 1005 [(''A'', 6, 100, 0), (''B'', 0, 60, 40)]
             \<lparr>lpBalanceOf := (\<lambda>a. 7), gaugeBalanceOf := (\<lambda>a. 0)\<rparr>)
          [JString ''A'', JString ''B'', JString ''A''] = Inr r"
proof -
  let ?ch = "chain_of 10 1005 [(''A'', 6, 100, 0), (''B'', 0, 60, 40)]"
  let ?accounts = "[''A'', ''B'', ''A'']"
  have v: "veTotalSupply ?ch \<noteq> 0" by (simp add: chain_of_def)
  from boosted_deposit_cap [where ch = ?ch and accounts = ?accounts
      and lp = "\<lambda>a. 7" and g = "\<lambda>a. 0"] v
  obtain r
    where r: "gaugeMaxBoostedDeposit ?ch (map JString ?accounts) = Inr r"
      and l: "\<forall>a \<in> set ?accounts.
                map_of (amounts r) a
                  = Some ((gaugeTotalSupply ?ch * veBalanceOf ?ch a) sdiv veTotalSupply ?ch)
                \<and> (veBalanceOf ?ch a = 0 \<longrightarrow> map_of (amounts r) a = Some 0)"
      and i: "gaugeMaxBoostedDeposit
                (?ch\<lparr>lpBalanceOf := (\<lambda>a. 7), gaugeBalanceOf := (\<lambda>a. 0)\<rparr>)
                (map JString ?accounts) = Inr r"
    by blast
  from l have "map_of (amounts r) ''A'' = Some 603 \<and> map_of (amounts r) ''B'' = Some 0"
    by (simp add: chain_of_def signed_divide_int_def)
  with r i show ?thesis by auto
qed

section \<open>Shares\<close>

text \<open>
  Claim C9. In \<open>gaugeOptimalDeposits\<close> the share \<open>votePct[acct]\<close> of every account
  is the truncated integer quotient of its voting-escrow balance by the voting-escrow
  supply, with no scaling by \<open>10 ^ 18\<close>; so the share is zero for every account whose
  balance is (non-negative and) strictly less than the supply.
\<close>

theorem votePct_truncates:
  assumes "veTotalSupply ch \<noteq> 0"
  shows "\<exists>votePct totalBalance.
           votePct_loop (veTotalSupply ch) accounts (drop 2 (optimal_response ch accounts)) [] 0
             = Inr (votePct, totalBalance)
           \<and> (\<forall>a \<in> set accounts.
                 map_of votePct a = Some (veBalanceOf ch a sdiv veTotalSupply ch)
                 \<and> (0 \<le> veBalanceOf ch a \<and> veBalanceOf ch a < veTotalSupply ch
                      \<longrightarrow> map_of votePct a = Some 0))"
proof -
  have "0 \<le> v \<and> v < t \<longrightarrow> v sdiv t = 0" for v t :: int
    by (simp add: signed_divide_int_def)
  with assms show ?thesis
    by (simp add: optimal_response_def votePct_loop_eq map_of_assign_all)
qed

theorem votePct_truncates_witness:
  "\<exists>votePct totalBalance.
     votePct_loop (10 ^ 19) [''A'', ''B'']
       [6 * 10 ^ 18, 10 ^ 20, 0, 4 * 10 ^ 18, 6 * 10 ^ 19, 4 * 10 ^ 19] [] 0
       = Inr (votePct, totalBalance)
     \<and> map_of votePct ''A'' = Some 0 \<and> map_of votePct ''B'' = Some 0"
proof -
  let ?ch = "chain_of (10 ^ 19) (10 ^ 20)
    [(''A'', 6 * 10 ^ 18, 10 ^ 20, 0), (''B'', 4 * 10 ^ 18, 6 * 10 ^ 19, 4 * 10 ^ 19)]"
  have v: "veTotalSupply ?ch \<noteq> 0" by (simp add: chain_of_def)
  from votePct_truncates [OF v, of "[''A'', ''B'']"] obtain votePct totalBalance
    where r: "votePct_loop (veTotalSupply ?ch) [''A'', ''B'']
                (drop 2 (optimal_response ?ch [''A'', ''B''])) [] 0 = Inr (votePct, totalBalance)"
      and l: "\<forall>a \<in> set [''A'', ''B''].
                 map_of votePct a = Some (veBalanceOf ?ch a sdiv veTotalSupply ?ch)
                 \<and> (0 \<le> veBalanceOf ?ch a \<and> veBalanceOf ?ch a < veTotalSupply ?ch
                      \<longrightarrow> map_of votePct a = Some 0)"
    by blast
  from l have "map_of votePct ''A'' = Some 0 \<and> map_of votePct ''B'' = Some 0"
    by (simp add: chain_of_def)
  moreover from r have "votePct_loop (10 ^ 19) [''A'', ''B'']
       [6 * 10 ^ 18, 10 ^ 20, 0, 4 * 10 ^ 18, 6 * 10 ^ 19, 4 * 10 ^ 19] [] 0
       = Inr (votePct, totalBalance)"
    by (simp add: chain_of_def optimal_response_def)
  ultimately show ?thesis by blast
qed

section \<open>Dependence on the inputs\<close>

text \<open>
  Claim C8. Both functions are functions of the argument list and of the values read
  from the chain, and of nothing else: two chains with the same supplies and the same
  three balances for every account named in the arguments give identical results,
  whatever else differs between them.
\<close>

theorem results_depend_on_reads_only:
  assumes "veTotalSupply ch = veTotalSupply ch'" and "gaugeTotalSupply ch = gaugeTotalSupply ch'"
      and "\<forall>a \<in> set (concat (map mentioned args)). veBalanceOf ch a = veBalanceOf ch' a
             \<and> lpBalanceOf ch a = lpBalanceOf ch' a \<and> gaugeBalanceOf ch a = gaugeBalanceOf ch' a"
  shows "gaugeOptimalDeposits ch args = gaugeOptimalDeposits ch' args
         \<and> gaugeMaxBoostedDeposit ch args = gaugeMaxBoostedDeposit ch' args"
proof (cases "as_addresses (unwrap_accounts args)")
  case (Inl e)
  then show ?thesis
    by (simp add: gaugeOptimalDeposits_def gaugeMaxBoostedDeposit_def)
next
  case (Inr accounts)
  then have "set accounts \<subseteq> set (concat (map mentioned args))"
    using as_addresses_mentioned unwrap_accounts_mentioned by blast
  with assms(3) have same: "\<forall>a \<in> set accounts. veBalanceOf ch a = veBalanceOf ch' a
      \<and> lpBalanceOf ch a = lpBalanceOf ch' a \<and> gaugeBalanceOf ch a = gaugeBalanceOf ch' a"
    by blast
  have "gaugeOptimalDepositsBN ch accounts = gaugeOptimalDepositsBN ch' accounts"
    unfolding gaugeOptimalDepositsBN_def optimal_response_cong(1) [OF assms(1,2) same] ..
  moreover have "gaugeMaxBoostedDepositBN ch accounts = gaugeMaxBoostedDepositBN ch' accounts"
    unfolding gaugeMaxBoostedDepositBN_def optimal_response_cong(2) [OF assms(1,2) same] ..
  ultimately show ?thesis
    using Inr by (simp add: gaugeOptimalDeposits_def gaugeMaxBoostedDeposit_def)
qed


theorem results_depend_on_reads_only_witness:
  "gaugeOptimalDeposits (chain_of 5 1000 [(''A'', 0, 100, 0), (''B'', 5, 20, 30)])
       [JString ''A'', JString ''B'']
     = gaugeOptimalDeposits
         (chain_of 5 1000 [(''A'', 0, 100, 0), (''B'', 5, 20, 30), (''Z'', 9, 9, 9)])
         [JString ''A'', JString ''B'']
   \<and> gaugeMaxBoostedDeposit (chain_of 5 1000 [(''A'', 0, 100, 0), (''B'', 5, 20, 30)])
       [JString ''A'', JString ''B'']
     = gaugeMaxBoostedDeposit
         (chain_of 5 1000 [(''A'', 0, 100, 0), (''B'', 5, 20, 30), (''Z'', 9, 9, 9)])
         [JString ''A'', JString ''B'']"
proof -
  let ?ch = "chain_of 5 1000 [(''A'', 0, 100, 0), (''B'', 5, 20, 30)]"
  let ?ch' = "chain_of 5 1000 [(''A'', 0, 100, 0), (''B'', 5, 20, 30), (''Z'', 9, 9, 9)]"
  let ?args = "[JString ''A'', JString ''B'']"
  have v: "veTotalSupply ?ch = veTotalSupply ?ch'" by (simp add: chain_of_def)
  have g: "gaugeTotalSupply ?ch = gaugeTotalSupply ?ch'" by (simp add: chain_of_def)
  have b: "\<forall>a \<in> set (concat (map mentioned ?args)). veBalanceOf ?ch a = veBalanceOf ?ch' a
             \<and> lpBalanceOf ?ch a = lpBalanceOf ?ch' a \<and> gaugeBalanceOf ?ch a = gaugeBalanceOf ?ch' a"
    by (simp add: chain_of_def)
  show ?thesis
    by (rule results_depend_on_reads_only [OF v g b])
qed

text \<open>
  Claim C10. Both functions take the accounts as separate string arguments or as one
  array argument, and the two forms agree: a call with the single array \<open>xs\<close> gives
  what the call with the elements of \<open>xs\<close> as separate arguments gives.
\<close>

theorem calling_forms_agree:
  "gaugeOptimalDeposits ch [JArray xs] = gaugeOptimalDeposits ch (map JString xs)
   \<and> gaugeMaxBoostedDeposit ch [JArray xs] = gaugeMaxBoostedDeposit ch (map JString xs)"
  by (simp add: gaugeOptimalDeposits_def gaugeMaxBoostedDeposit_def
      unwrap_accounts_array unwrap_accounts_strings)

end
